theory Spec2Isabelle
  imports Complex_Main "HOL-Library.Multiset" "HOL-Library.Product_Lexorder"
begin

section \<open>Vector Sort node: a shallow embedding of \<open>nodes/vector/vertices_sort.py\<close>\<close>

text \<open>
  The node reorders a list of points by one of several strategies and re-expresses the
  edges or faces and an item-order trace in the new order. Conventions of the embedding:
  \<^item> a coordinate is a \<open>real\<close>; a vertex of the sorting modes is a triple of coordinates;
    the connectivity walk only compares vertices for equality, so its vertex type is
    a type variable;
  \<^item> an index is a \<open>nat\<close> (Python's negative indices are outside the model), an edge is
    a pair of indices, a face a list of indices;
  \<^item> every Python exception is a value of \<open>error\<close>; a function that can raise returns
    \<open>error + 'a\<close> with \<open>Inl\<close> for the exception;
  \<^item> \<open>process\<close> loops over a batch of objects; each mode is modelled by the body of that
    loop for one object \<open>(v, p)\<close>, returning the triple that is appended to
    \<open>verts_out\<close>, \<open>poly_edge_out\<close> and \<open>item_order\<close> (\<open>None\<close> for an output that is
    not produced).
\<close>

subsection \<open>Python primitives\<close>

datatype error = IndexError | KeyError | ValueError

text \<open>\<open>xs[k]\<close>: raises IndexError out of range.\<close>

definition nth_err :: "'a list \<Rightarrow> nat \<Rightarrow> error + 'a" where
  "nth_err xs k = (if k < length xs then Inr (xs ! k) else Inl IndexError)"

text \<open>\<open>xs.pop(k)\<close>, the popped value dropped: raises IndexError out of range.\<close>

definition pop :: "'a list \<Rightarrow> nat \<Rightarrow> error + 'a list" where
  "pop xs k = (if k < length xs then Inr (take k xs @ drop (Suc k) xs) else Inl IndexError)"

text \<open>\<open>xs.index(x)\<close>: the first position of \<open>x\<close>; raises ValueError when absent.\<close>

fun list_index :: "'a list \<Rightarrow> 'a \<Rightarrow> error + nat" where
  "list_index [] x = Inl ValueError"
| "list_index (y # ys) x =
     (if y = x then Inr 0
      else (case list_index ys x of Inl e \<Rightarrow> Inl e | Inr k \<Rightarrow> Inr (Suc k)))"

text \<open>\<open>d[n]\<close> on a dict: raises KeyError when the key is absent.\<close>

definition dict_get :: "('k \<rightharpoonup> 'a) \<Rightarrow> 'k \<Rightarrow> error + 'a" where
  "dict_get d n = (case d n of None \<Rightarrow> Inl KeyError | Some j \<Rightarrow> Inr j)"

text \<open>A list comprehension \<open>[f(x) for x in xs]\<close> whose body can raise: the first
  exception aborts the whole comprehension.\<close>

fun map_err :: "('a \<Rightarrow> error + 'b) \<Rightarrow> 'a list \<Rightarrow> error + 'b list" where
  "map_err f [] = Inr []"
| "map_err f (x # xs) =
     (case f x of Inl e \<Rightarrow> Inl e
      | Inr y \<Rightarrow> (case map_err f xs of Inl e \<Rightarrow> Inl e | Inr ys \<Rightarrow> Inr (y # ys)))"

text \<open>\<open>sorted(xs, key=key, reverse=reverse)\<close>. Python's sort is stable; with
  \<open>reverse=True\<close> it reverses the list, sorts it stably and reverses the result, so
  equal keys keep their original relative order.\<close>

definition sorted_py :: "('a \<Rightarrow> 'k::linorder) \<Rightarrow> bool \<Rightarrow> 'a list \<Rightarrow> 'a list" where
  "sorted_py key reverse xs =
     (if reverse then rev (sort_key key (rev xs)) else sort_key key xs)"

text \<open>A value that is iterated over: a list can be iterated any number of times, the
  iterator returned by \<open>reversed(xs)\<close> yields its items once and is empty afterwards.\<close>

datatype 'a py_seq = PyList "'a list" | PyIter "'a list"

fun iterate :: "'a py_seq \<Rightarrow> 'a list \<times> 'a py_seq" where
  "iterate (PyList xs) = (xs, PyList xs)"
| "iterate (PyIter xs) = (xs, PyIter [])"

definition reversed :: "'a list \<Rightarrow> 'a py_seq" where
  "reversed xs = PyIter (rev xs)"

subsection \<open>The sorting modes\<close>

type_synonym vert = "real \<times> real \<times> real"
type_synonym item = "real \<times> real \<times> real \<times> nat"

text \<open>\<open>((e[0], e[1], e[2], i) for i, e in enumerate(v))\<close>\<close>

definition enumerate_verts :: "vert list \<Rightarrow> item list" where
  "enumerate_verts v = map (\<lambda>(i, (x, y, z)). (x, y, z, i)) (enumerate 0 v)"

text \<open>\<open>itemgetter(k)\<close> for the positions 0, 1, 2 that \<open>op_order\<close> uses; \<open>v[:3]\<close> and
  \<open>item[-1]\<close>.\<close>

fun itemgetter :: "nat \<Rightarrow> item \<Rightarrow> real" where
  "itemgetter k (x, y, z, i) = (if k = 0 then x else if k = 1 then y else z)"

fun item_vert :: "item \<Rightarrow> vert" where
  "item_vert (x, y, z, i) = (x, y, z)"

fun item_last :: "item \<Rightarrow> nat" where
  "item_last (x, y, z, i) = i"

text \<open>\<open>{item[-1]: j for j, item in enumerate(s_v)}\<close>, built from the last components.\<close>

definition v_index :: "nat list \<Rightarrow> (nat \<rightharpoonup> nat)" where
  "v_index lasts = foldl (\<lambda>d (j, n). d(n \<mapsto> j)) Map.empty (enumerate 0 lasts)"

text \<open>\<open>[list(map(lambda n: v_index[n], pe)) for pe in p]\<close>\<close>

definition remap_poly_edge :: "nat list \<Rightarrow> nat list list \<Rightarrow> error + nat list list" where
  "remap_poly_edge lasts p = map_err (map_err (dict_get (v_index lasts))) p"

text \<open>The three statements that close every sorting mode: the vertices, then (when
  requested) the remapped edges or faces, then (when requested) the item order, each
  iterating over \<open>s_v\<close> again. The modes differ in the shape of an item of \<open>s_v\<close>:
  \<open>vert_of\<close> reads the vertex of an item and \<open>last_of\<close> is \<open>item[-1]\<close>.\<close>

definition emit_outputs ::
  "('i \<Rightarrow> vert) \<Rightarrow> ('i \<Rightarrow> nat) \<Rightarrow> bool \<Rightarrow> bool \<Rightarrow> 'i py_seq \<Rightarrow> nat list list
     \<Rightarrow> error + (vert list \<times> nat list list option \<times> nat list option)" where
  "emit_outputs vert_of last_of poly_output order_output s_v p =
     (case iterate s_v of (items1, s_v1) \<Rightarrow>
        (case (if poly_output
               then (case iterate s_v1 of (items2, s_v2) \<Rightarrow>
                       (case remap_poly_edge (map last_of items2) p of
                          Inl e \<Rightarrow> Inl e
                        | Inr q \<Rightarrow> Inr (Some q, s_v2)))
               else Inr (None, s_v1)) of
           Inl e \<Rightarrow> Inl e
         | Inr (poly_edge_out, s_v3) \<Rightarrow>
             Inr (map vert_of items1, poly_edge_out,
                  if order_output then Some (map last_of (fst (iterate s_v3))) else None)))"

text \<open>Mode XYZ.\<close>

definition op_order :: "bool \<Rightarrow> bool \<Rightarrow> bool \<Rightarrow> (nat \<times> bool) list" where
  "op_order reverse_x reverse_y reverse_z = [(0, reverse_x), (1, reverse_y), (2, reverse_z)]"

definition sort_XYZ :: "bool \<Rightarrow> bool \<Rightarrow> bool \<Rightarrow> vert list \<Rightarrow> item list" where
  "sort_XYZ reverse_x reverse_y reverse_z v =
     foldl (\<lambda>s_v (item_index, r). sorted_py (itemgetter item_index) r s_v)
       (enumerate_verts v) (op_order reverse_x reverse_y reverse_z)"

definition process_XYZ ::
  "bool \<Rightarrow> bool \<Rightarrow> bool \<Rightarrow> bool \<Rightarrow> bool \<Rightarrow> vert list \<Rightarrow> nat list list
     \<Rightarrow> error + (vert list \<times> nat list list option \<times> nat list option)" where
  "process_XYZ reverse_x reverse_y reverse_z poly_output order_output v p =
     emit_outputs item_vert item_last poly_output order_output
       (PyList (sort_XYZ reverse_x reverse_y reverse_z v)) p"

text \<open>Mode AXYZ. \<open>matrix\<close> stands for the map \<open>w \<mapsto> matrix @ Vector(w)\<close>, where the matrix
  comes from \<open>linear_approximation(v).most_similar_plane().get_matrix().inverted()\<close>;
  none of that is part of these sources, so the map is a parameter. The key is a tuple,
  compared lexicographically.\<close>

definition key_AXYZ :: "(vert \<Rightarrow> vert) \<Rightarrow> bool \<Rightarrow> bool \<Rightarrow> bool \<Rightarrow> item \<Rightarrow> real \<times> real \<times> real" where
  "key_AXYZ matrix reverse_x reverse_y reverse_z item =
     (case matrix (item_vert item) of (x, y, z) \<Rightarrow>
        (if reverse_x then - x else x, if reverse_y then - y else y, if reverse_z then - z else z))"

definition process_AXYZ ::
  "(vert \<Rightarrow> vert) \<Rightarrow> bool \<Rightarrow> bool \<Rightarrow> bool \<Rightarrow> bool \<Rightarrow> bool \<Rightarrow> vert list \<Rightarrow> nat list list
     \<Rightarrow> error + (vert list \<times> nat list list option \<times> nat list option)" where
  "process_AXYZ matrix reverse_x reverse_y reverse_z poly_output order_output v p =
     emit_outputs item_vert item_last poly_output order_output
       (PyList (sorted_py (key_AXYZ matrix reverse_x reverse_y reverse_z) False
          (enumerate_verts v))) p"

text \<open>Mode ADIR. The direction of the fitted line comes from
  \<open>linear_approximation(v).most_similar_line().direction\<close>, which is not part of these
  sources: it is a parameter.\<close>

definition dot :: "vert \<Rightarrow> vert \<Rightarrow> real" where
  "dot a b = (case a of (ax, ay, az) \<Rightarrow> case b of (bx, by, bz) \<Rightarrow> ax * bx + ay * by + az * bz)"

definition key_ADIR :: "vert \<Rightarrow> item \<Rightarrow> real" where
  "key_ADIR direction item = dot (item_vert item) direction"

definition process_ADIR ::
  "vert \<Rightarrow> bool \<Rightarrow> bool \<Rightarrow> bool \<Rightarrow> vert list \<Rightarrow> nat list list
     \<Rightarrow> error + (vert list \<times> nat list list option \<times> nat list option)" where
  "process_ADIR direction reverse poly_output order_output v p =
     (let s_v = sorted_py (key_ADIR direction) False (enumerate_verts v)
      in emit_outputs item_vert item_last poly_output order_output
           (if reverse then reversed s_v else PyList s_v) p)"

text \<open>Mode ACYL. \<open>cylindrical\<close> stands for \<open>w \<mapsto> to_cylindrical(matrix @ (Vector(w) - center))\<close>,
  whose three ingredients are not part of these sources; it returns \<open>(rho, phi, z)\<close> and
  the key is \<open>(phi, z, rho)\<close>.\<close>

definition key_ACYL :: "(vert \<Rightarrow> real \<times> real \<times> real) \<Rightarrow> item \<Rightarrow> real \<times> real \<times> real" where
  "key_ACYL cylindrical item =
     (case cylindrical (item_vert item) of (rho, phi, z) \<Rightarrow> (phi, z, rho))"

definition process_ACYL ::
  "(vert \<Rightarrow> real \<times> real \<times> real) \<Rightarrow> bool \<Rightarrow> bool \<Rightarrow> bool \<Rightarrow> vert list \<Rightarrow> nat list list
     \<Rightarrow> error + (vert list \<times> nat list list option \<times> nat list option)" where
  "process_ACYL cylindrical reverse poly_output order_output v p =
     (let s_v = sorted_py (key_ACYL cylindrical) False (enumerate_verts v)
      in emit_outputs item_vert item_last poly_output order_output
           (if reverse then reversed s_v else PyList s_v) p)"

text \<open>Mode DIST: the items are pairs \<open>(v_c, i)\<close>, sorted by the squared distance to the
  base point.\<close>

definition distK :: "vert \<Rightarrow> vert \<Rightarrow> real" where
  "distK v1 v2 =
     (case v1 of (x1, y1, z1) \<Rightarrow> case v2 of (x2, y2, z2) \<Rightarrow>
        (x1 - x2)\<^sup>2 + (y1 - y2)\<^sup>2 + (z1 - z2)\<^sup>2)"

definition process_DIST ::
  "vert \<Rightarrow> bool \<Rightarrow> bool \<Rightarrow> vert list \<Rightarrow> nat list list
     \<Rightarrow> error + (vert list \<times> nat list list option \<times> nat list option)" where
  "process_DIST v_base poly_output order_output v p =
     emit_outputs fst snd poly_output order_output
       (PyList (sorted_py (\<lambda>it. distK (fst it) v_base) False
          (map (\<lambda>(i, v_c). (v_c, i)) (enumerate 0 v)))) p"

text \<open>Mode AXIS: the items are \<open>(data[0][1], data[1], i)\<close>, sorted by the pair of the
  first two components; the vertex of an item is read back from \<open>v\<close> by its index.
  \<open>along\<close> stands for \<open>v_c \<mapsto> intersect_point_line(v_c, base_point, axis)[1]\<close> and
  \<open>angle\<close> for the signed angle \<open>f(axis, (axis_norm + v_l[0]).rotation_difference(v_c))\<close>;
  both rest on \<open>mathutils\<close>, which is not part of these sources.\<close>

definition process_AXIS ::
  "(vert \<Rightarrow> real) \<Rightarrow> (vert \<Rightarrow> real) \<Rightarrow> bool \<Rightarrow> bool \<Rightarrow> vert list \<Rightarrow> nat list list
     \<Rightarrow> error + (vert list \<times> nat list list option \<times> nat list option)" where
  "process_AXIS along angle poly_output order_output v p =
     emit_outputs (\<lambda>it. v ! snd (snd it)) (\<lambda>it. snd (snd it)) poly_output order_output
       (PyList (sorted_py (\<lambda>it. (fst it, fst (snd it))) False
          (map (\<lambda>(i, v_c). (along v_c, angle v_c, i)) (enumerate 0 v)))) p"

text \<open>Mode USER: the items are \<open>(data[0], data[1], i)\<close> over \<open>zip(index, v)\<close>, which stops
  at the shorter of the two lists, sorted by the user's datum.\<close>

definition process_USER ::
  "real list \<Rightarrow> bool \<Rightarrow> bool \<Rightarrow> vert list \<Rightarrow> nat list list
     \<Rightarrow> error + (vert list \<times> nat list list option \<times> nat list option)" where
  "process_USER index_data poly_output order_output v p =
     emit_outputs (\<lambda>it. fst (snd it)) (\<lambda>it. snd (snd it)) poly_output order_output
       (PyList (sorted_py fst False
          (map (\<lambda>(i, d). (fst d, snd d, i)) (enumerate 0 (zip index_data v))))) p"

subsection \<open>The connectivity mode\<close>

text \<open>\<open>pop_lower_level(a, index)\<close> on the three parallel arrays of \<open>edges_copy\<close>.\<close>

definition pop_lower_level ::
  "nat list \<times> nat list \<times> nat list \<Rightarrow> nat \<Rightarrow> error + (nat list \<times> nat list \<times> nat list)" where
  "pop_lower_level a k =
     (case a of (e0, e1, ei) \<Rightarrow>
        (case pop e0 k of Inl e \<Rightarrow> Inl e
         | Inr e0' \<Rightarrow>
             (case pop e1 k of Inl e \<Rightarrow> Inl e
              | Inr e1' \<Rightarrow>
                  (case pop ei k of Inl e \<Rightarrow> Inl e
                   | Inr ei' \<Rightarrow> Inr (e0', e1', ei')))))"

text \<open>\<open>find_limits\<close>: \<open>v_count[q]\<close> is (degree, side of the last edge seen, index of the
  last edge seen).\<close>

definition count_end ::
  "(nat \<times> nat \<times> nat) list \<Rightarrow> nat \<Rightarrow> nat \<Rightarrow> nat \<Rightarrow> error + (nat \<times> nat \<times> nat) list" where
  "count_end v_count q side i =
     (if q < length v_count then Inr (v_count[q := (fst (v_count ! q) + 1, side, i)])
      else Inl IndexError)"

fun count_edges ::
  "(nat \<times> nat \<times> nat) list \<Rightarrow> nat \<Rightarrow> (nat \<times> nat) list \<Rightarrow> error + (nat \<times> nat \<times> nat) list" where
  "count_edges v_count i [] = Inr v_count"
| "count_edges v_count i (e # es) =
     (case count_end v_count (fst e) 0 i of Inl err \<Rightarrow> Inl err
      | Inr c1 \<Rightarrow>
          (case count_end c1 (snd e) 1 i of Inl err \<Rightarrow> Inl err
           | Inr c2 \<Rightarrow> count_edges c2 (Suc i) es))"

definition find_limits :: "'v list \<Rightarrow> (nat \<times> nat) list \<Rightarrow> error + (nat \<times> nat \<times> nat) list" where
  "find_limits verts_in edges_in =
     (case count_edges (replicate (length verts_in) (0, 0, 0)) 0 edges_in of
        Inl err \<Rightarrow> Inl err
      | Inr v_count \<Rightarrow>
          Inr (map (\<lambda>(i, c). (i, snd c)) (filter (\<lambda>(i, c). fst c = 1) (enumerate 0 v_count))))"

text \<open>The state of the walk: the three results under construction, the unconsumed
  edges \<open>edges_copy = [edges0, edges1, edges_index]\<close>, and the current edge with its
  direction.\<close>

record 'v walk =
  verts_out :: "'v list"
  edges_out :: "nat list list"
  index :: "nat list"
  edges_copy :: "nat list \<times> nat list \<times> nat list"
  ed_index :: nat
  or_side :: nat

text \<open>\<open>e = edges_in[ed_index]\<close>, swapped when \<open>or_side == 1\<close>.\<close>

definition oriented_edge :: "(nat \<times> nat) list \<Rightarrow> nat \<Rightarrow> nat \<Rightarrow> error + (nat \<times> nat)" where
  "oriented_edge edges_in k side =
     (case nth_err edges_in k of Inl err \<Rightarrow> Inl err
      | Inr e \<Rightarrow> Inr (if side = 1 then (snd e, fst e) else e))"

text \<open>The body of \<open>for side in e\<close>, on the state and the edge \<open>ed\<close> under construction.\<close>

definition visit_side :: "'v list \<Rightarrow> 'v walk \<times> nat list \<Rightarrow> nat \<Rightarrow> error + ('v walk \<times> nat list)" where
  "visit_side verts_in sted side =
     (case sted of (st, ed) \<Rightarrow>
        (case nth_err verts_in side of Inl err \<Rightarrow> Inl err
         | Inr vtx \<Rightarrow>
             if vtx \<in> set (verts_out st) then
               (case list_index (verts_out st) vtx of Inl err \<Rightarrow> Inl err
                | Inr k \<Rightarrow> Inr (st, ed @ [k]))
             else
               (case list_index (verts_out st @ [vtx]) vtx of Inl err \<Rightarrow> Inl err
                | Inr k \<Rightarrow>
                    Inr (st\<lparr>verts_out := verts_out st @ [vtx], index := index st @ [side]\<rparr>,
                         ed @ [k]))))"

text \<open>"find next edge": the first unconsumed edge that leaves \<open>v_index\<close>, else the
  first one that enters it, else nothing changes.\<close>

definition take_edge :: "nat list \<times> nat list \<times> nat list \<Rightarrow> nat \<Rightarrow> nat \<Rightarrow> 'v walk \<Rightarrow> error + 'v walk" where
  "take_edge ec k side st =
     (case nth_err (snd (snd ec)) k of Inl err \<Rightarrow> Inl err
      | Inr j \<Rightarrow>
          (case pop_lower_level ec k of Inl err \<Rightarrow> Inl err
           | Inr ec' \<Rightarrow> Inr (st\<lparr>ed_index := j, or_side := side, edges_copy := ec'\<rparr>)))"

definition find_next :: "nat \<Rightarrow> 'v walk \<Rightarrow> error + 'v walk" where
  "find_next v_idx st =
     (case edges_copy st of (e0, e1, ei) \<Rightarrow>
        if v_idx \<in> set e0 then
          (case list_index e0 v_idx of Inl err \<Rightarrow> Inl err
           | Inr k \<Rightarrow> take_edge (e0, e1, ei) k 0 st)
        else if v_idx \<in> set e1 then
          (case list_index e1 v_idx of Inl err \<Rightarrow> Inl err
           | Inr k \<Rightarrow> take_edge (e0, e1, ei) k 1 st)
        else Inr st)"

text \<open>"if not found take next point or next limit".\<close>

definition restart :: "bool \<Rightarrow> (nat \<times> nat \<times> nat) list \<Rightarrow> nat \<Rightarrow> 'v walk \<Rightarrow> error + 'v walk" where
  "restart limiting limits ed_index_old st =
     (case edges_copy st of (e0, e1, ei) \<Rightarrow>
        if ed_index st = ed_index_old \<and> length e0 > 0 then
          if \<not> limiting then take_edge (e0, e1, ei) 0 0 st
          else
            (case find (\<lambda>l. fst l \<notin> set (index st)) limits of
               None \<Rightarrow> Inr st
             | Some l \<Rightarrow>
                 (case (if fst l \<in> set e0 then list_index e0 (fst l)
                        else list_index e1 (fst l)) of
                    Inl err \<Rightarrow> Inl err
                  | Inr k \<Rightarrow>
                      (case pop_lower_level (e0, e1, ei) k of Inl err \<Rightarrow> Inl err
                       | Inr ec' \<Rightarrow>
                           Inr (st\<lparr>ed_index := snd (snd l), or_side := fst (snd l),
                                   edges_copy := ec'\<rparr>))))
        else Inr st)"

text \<open>One iteration of \<open>for j in range(edges_len)\<close>.\<close>

definition walk_step ::
  "'v list \<Rightarrow> (nat \<times> nat) list \<Rightarrow> bool \<Rightarrow> (nat \<times> nat \<times> nat) list \<Rightarrow> 'v walk \<Rightarrow> error + 'v walk" where
  "walk_step verts_in edges_in limiting limits st =
     (case oriented_edge edges_in (ed_index st) (or_side st) of Inl err \<Rightarrow> Inl err
      | Inr e \<Rightarrow>
          (case visit_side verts_in (st, []) (fst e) of Inl err \<Rightarrow> Inl err
           | Inr sted1 \<Rightarrow>
               (case visit_side verts_in sted1 (snd e) of Inl err \<Rightarrow> Inl err
                | Inr (st2, ed) \<Rightarrow>
                    (case find_next (snd e) (st2\<lparr>edges_out := edges_out st2 @ [ed]\<rparr>) of
                       Inl err \<Rightarrow> Inl err
                     | Inr st4 \<Rightarrow> restart limiting limits (ed_index st) st4))))"

fun walk_loop ::
  "'v list \<Rightarrow> (nat \<times> nat) list \<Rightarrow> bool \<Rightarrow> (nat \<times> nat \<times> nat) list \<Rightarrow> nat \<Rightarrow> 'v walk
     \<Rightarrow> error + 'v walk" where
  "walk_loop verts_in edges_in limiting limits 0 st = Inr st"
| "walk_loop verts_in edges_in limiting limits (Suc n) st =
     (case walk_step verts_in edges_in limiting limits st of Inl err \<Rightarrow> Inl err
      | Inr st' \<Rightarrow> walk_loop verts_in edges_in limiting limits n st')"

text \<open>"add unconnected vertices": the loop over \<open>zip(verts_in, range(len(verts_in)))\<close>.\<close>

fun add_unconnected :: "('v \<times> nat) list \<Rightarrow> 'v list \<times> nat list \<Rightarrow> 'v list \<times> nat list" where
  "add_unconnected [] acc = acc"
| "add_unconnected ((verts, i) # rest) acc =
     (if verts \<notin> set (fst acc)
      then add_unconnected rest (fst acc @ [verts], snd acc @ [i])
      else add_unconnected rest acc)"

definition sort_vertices_by_connexions ::
  "'v list \<Rightarrow> (nat \<times> nat) list \<Rightarrow> bool \<Rightarrow> error + ('v list \<times> nat list list \<times> nat list)" where
  "sort_vertices_by_connexions verts_in edges_in limit_mode =
     (case (if limit_mode then find_limits verts_in edges_in else Inr []) of
        Inl err \<Rightarrow> Inl err
      | Inr limits0 \<Rightarrow>
          (let edges_len = length edges_in;
               limiting = (limit_mode \<and> length limits0 > 0);
               ed0 = (if limiting then snd (snd (hd limits0)) else 0);
               side0 = (if limiting then fst (snd (hd limits0)) else 0);
               limits = (if limiting then tl limits0 else limits0)
           in case pop_lower_level (map fst edges_in, map snd edges_in, [0..<edges_len]) ed0 of
                Inl err \<Rightarrow> Inl err
              | Inr ec \<Rightarrow>
                  (case walk_loop verts_in edges_in limiting limits edges_len
                          \<lparr>verts_out = [], edges_out = [], index = [], edges_copy = ec,
                           ed_index = ed0, or_side = side0\<rparr> of
                     Inl err \<Rightarrow> Inl err
                   | Inr st \<Rightarrow>
                       (case (if length (verts_out st) \<noteq> length verts_in
                              then add_unconnected (zip verts_in [0..<length verts_in])
                                     (verts_out st, index st)
                              else (verts_out st, index st)) of
                          (vo, idx) \<Rightarrow> Inr (vo, edges_out st, idx)))))"



subsection \<open>Notions used to state the properties of the walk\<close>

text \<open>The invariant that ties the vertex output to the item-order trace: the vertex output
  lists the coordinates of the traced indices, no coordinate twice, and every traced
  index is an index of the input.\<close>

definition walk_inv :: "'v list \<Rightarrow> 'v list \<Rightarrow> nat list \<Rightarrow> bool" where
  "walk_inv verts_in vo idx \<longleftrightarrow>
     map (\<lambda>i. verts_in ! i) idx = vo \<and> distinct vo \<and> (\<forall>i\<in>set idx. i < length verts_in)"

text \<open>The points that some edge touches.\<close>

definition touched :: "(nat \<times> nat) list \<Rightarrow> nat set" where
  "touched edges_in = fst ` set edges_in \<union> snd ` set edges_in"

text \<open>The second invariant of the walk: every traced index is a point some edge touches,
  and every entry of the reindexed edges is a position of the vertex output.\<close>

definition walk_inv2 :: "(nat \<times> nat) list \<Rightarrow> 'v walk \<Rightarrow> bool" where
  "walk_inv2 edges_in st \<longleftrightarrow>
     set (index st) \<subseteq> touched edges_in
     \<and> (\<forall>ed\<in>set (edges_out st). \<forall>k\<in>set ed. k < length (verts_out st))"

text \<open>An item order over \<open>n\<close> points is a permutation of the original indices when it has no
  duplicate and holds exactly the indices below \<open>n\<close>.\<close>

definition is_permutation :: "nat list \<Rightarrow> nat \<Rightarrow> bool" where
  "is_permutation order n \<longleftrightarrow> distinct order \<and> set order = {..<n}"

text \<open>The edges still to be taken, \<open>edges_copy\<close>, as the three parallel lists the code keeps
  (first ends, second ends, original edge indices), for the list \<open>ei\<close> of the original
  indices that are left.\<close>

definition remaining :: "(nat \<times> nat) list \<Rightarrow> nat list \<Rightarrow> nat list \<times> nat list \<times> nat list" where
  "remaining edges_in ei =
     (map (\<lambda>j. fst (edges_in ! j)) ei, map (\<lambda>j. snd (edges_in ! j)) ei, ei)"

text \<open>The invariant of the walk on its edge store: the store is \<open>remaining\<close> of indices
  without duplicate, the current edge is an edge of the input that is no longer in the
  store and, with limit detection, both ends of every other edge that has left the store
  are in the trace.\<close>

definition edges_inv :: "(nat \<times> nat) list \<Rightarrow> bool \<Rightarrow> 'v walk \<Rightarrow> bool" where
  "edges_inv edges_in limiting st \<longleftrightarrow>
     (\<exists>ei. edges_copy st = remaining edges_in ei \<and> distinct ei
        \<and> set ei \<subseteq> {..<length edges_in}
        \<and> ed_index st < length edges_in \<and> ed_index st \<notin> set ei
        \<and> (limiting \<longrightarrow> (\<forall>j<length edges_in. j \<notin> set ei \<and> j \<noteq> ed_index st \<longrightarrow>
               fst (edges_in ! j) \<in> set (index st) \<and> snd (edges_in ! j) \<in> set (index st))))"

text \<open>Every end of an edge is an index of the point list.\<close>

definition in_range :: "'v list \<Rightarrow> (nat \<times> nat) list \<Rightarrow> bool" where
  "in_range verts_in edges_in \<longleftrightarrow>
     (\<forall>e\<in>set edges_in. fst e < length verts_in \<and> snd e < length verts_in)"

text \<open>What \<open>find_limits\<close> guarantees of each limit \<open>(point, side, edge)\<close>: the edge is an edge
  of the input, the point is one of its ends, no other edge touches the point, and the
  side says which end of the edge the point is.\<close>

definition limits_ok :: "(nat \<times> nat) list \<Rightarrow> (nat \<times> nat \<times> nat) list \<Rightarrow> bool" where
  "limits_ok edges_in limits \<longleftrightarrow>
     (\<forall>l\<in>set limits. snd (snd l) < length edges_in
        \<and> (fst (edges_in ! snd (snd l)) = fst l \<or> snd (edges_in ! snd (snd l)) = fst l)
        \<and> (\<forall>j<length edges_in. fst (edges_in ! j) = fst l \<or> snd (edges_in ! j) = fst l
              \<longrightarrow> j = snd (snd l))
        \<and> (fst (snd l) = 0 \<and> fst (edges_in ! snd (snd l)) = fst l
             \<or> fst (snd l) = 1 \<and> snd (edges_in ! snd (snd l)) = fst l))"

text \<open>The number of edge ends that are the point \<open>q\<close>.\<close>

definition incidences :: "nat \<Rightarrow> (nat \<times> nat) list \<Rightarrow> nat" where
  "incidences q es =
     sum_list (map (\<lambda>e. (if fst e = q then 1 else 0) + (if snd e = q then 1 else 0)) es)"

text \<open>The part of \<open>sort_vertices_by_connexions\<close> before the loop, as a function of its own:
  whether limits are in use (\<open>limiting\<close>), the limits left after the start, and the state at
  the first iteration. Lemma \<open>connexions_walk_start\<close> shows that
  \<open>sort_vertices_by_connexions\<close> is this start followed by the loop and the final pass.\<close>

definition walk_start ::
  "'v list \<Rightarrow> (nat \<times> nat) list \<Rightarrow> bool \<Rightarrow> error + (bool \<times> (nat \<times> nat \<times> nat) list \<times> 'v walk)" where
  "walk_start verts_in edges_in limit_mode =
     (case (if limit_mode then find_limits verts_in edges_in else Inr []) of
        Inl err \<Rightarrow> Inl err
      | Inr limits0 \<Rightarrow>
          (let limiting = (limit_mode \<and> length limits0 > 0);
               ed0 = (if limiting then snd (snd (hd limits0)) else 0);
               side0 = (if limiting then fst (snd (hd limits0)) else 0);
               limits = (if limiting then tl limits0 else limits0)
           in case pop_lower_level (map fst edges_in, map snd edges_in, [0..<length edges_in]) ed0 of
                Inl err \<Rightarrow> Inl err
              | Inr ec \<Rightarrow>
                  Inr (limiting, limits,
                       \<lparr>verts_out = [], edges_out = [], index = [], edges_copy = ec,
                        ed_index = ed0, or_side = side0\<rparr>)))"

text \<open>The edge ends the walk visits, in the order of the visits: at each iteration the two
  ends of the current edge in its direction (the \<open>for side in e\<close> of the source), for \<open>n\<close>
  iterations from the state \<open>st\<close>.\<close>

fun walk_sides ::
  "'v list \<Rightarrow> (nat \<times> nat) list \<Rightarrow> bool \<Rightarrow> (nat \<times> nat \<times> nat) list \<Rightarrow> nat \<Rightarrow> 'v walk \<Rightarrow> nat list" where
  "walk_sides verts_in edges_in limiting limits 0 st = []"
| "walk_sides verts_in edges_in limiting limits (Suc n) st =
     (case oriented_edge edges_in (ed_index st) (or_side st) of Inl err \<Rightarrow> []
      | Inr e \<Rightarrow>
          fst e # snd e #
            (case walk_step verts_in edges_in limiting limits st of Inl err \<Rightarrow> []
             | Inr st' \<Rightarrow> walk_sides verts_in edges_in limiting limits n st'))"

text \<open>The edge ends visited by the whole walk of \<open>sort_vertices_by_connexions\<close>.\<close>

definition visit_sequence :: "'v list \<Rightarrow> (nat \<times> nat) list \<Rightarrow> bool \<Rightarrow> nat list" where
  "visit_sequence verts_in edges_in limit_mode =
     (case walk_start verts_in edges_in limit_mode of Inl err \<Rightarrow> []
      | Inr (limiting, limits, st0) \<Rightarrow>
          walk_sides verts_in edges_in limiting limits (length edges_in) st0)"

text \<open>\<open>keep_new verts_in seen xs\<close> drops from the list \<open>xs\<close> of point indices every index whose
  coordinates are in \<open>seen\<close> or are those of an earlier index of \<open>xs\<close>: of the indices with the
  same coordinates it keeps the first one of the list.\<close>

fun keep_new :: "'v list \<Rightarrow> 'v list \<Rightarrow> nat list \<Rightarrow> nat list" where
  "keep_new verts_in seen [] = []"
| "keep_new verts_in seen (s # ss) =
     (if verts_in ! s \<in> set seen then keep_new verts_in seen ss
      else s # keep_new verts_in (seen @ [verts_in ! s]) ss)"

subsection \<open>The specification's reading of the axis sort\<close>

text \<open>The specification describes mode XYZ as successive stable sorts, by key 0, then key
  1, then key 2, each key negated when its reverse flag is set. These definitions follow
  the specification's words; \<open>sort_XYZ\<close> above follows the code.\<close>

definition axis_key :: "nat \<Rightarrow> bool \<Rightarrow> item \<Rightarrow> real" where
  "axis_key k reverse item = (if reverse then - itemgetter k item else itemgetter k item)"

definition successive_stable_sorts :: "bool \<Rightarrow> bool \<Rightarrow> bool \<Rightarrow> vert list \<Rightarrow> item list" where
  "successive_stable_sorts reverse_x reverse_y reverse_z v =
     sort_key (axis_key 2 reverse_z)
       (sort_key (axis_key 1 reverse_y)
          (sort_key (axis_key 0 reverse_x) (enumerate_verts v)))"

text \<open>The combined key the three sorts amount to: z first, then y, then x, compared
  lexicographically.\<close>

definition lex_key :: "bool \<Rightarrow> bool \<Rightarrow> bool \<Rightarrow> item \<Rightarrow> real \<times> real \<times> real" where
  "lex_key rx ry rz item = (axis_key 2 rz item, axis_key 1 ry item, axis_key 0 rx item)"

text \<open>The specification's reading of the reverse option of mode ADIR: the stable sort by
  the negated projection.\<close>

definition negated_projection_sort :: "vert \<Rightarrow> vert list \<Rightarrow> item list" where
  "negated_projection_sort direction v =
     sort_key (\<lambda>item. - key_ADIR direction item) (enumerate_verts v)"

section \<open>Stable sorting\<close>

lemma sorted_rev_uminus:
  fixes f :: "'a \<Rightarrow> real"
  shows "sorted (map f xs) \<Longrightarrow> sorted (map (\<lambda>x. - f x) (rev xs))"
  by (induction xs) (auto simp: sorted_append)

text \<open>Python's \<open>reverse=True\<close> is the stable sort by the negated key.\<close>

lemma rev_sort_key_rev:
  fixes f :: "'a \<Rightarrow> real"
  shows "rev (sort_key f (rev xs)) = sort_key (\<lambda>x. - f x) xs"
proof (rule properties_for_sort_key [symmetric])
  show "mset (rev (sort_key f (rev xs))) = mset xs" by simp
next
  fix k
  have "filter (\<lambda>x. f x = f k) (sort_key f (rev xs)) = filter (\<lambda>x. f x = f k) (rev xs)"
    by (rule sort_key_stable)
  then have "rev (filter (\<lambda>x. f x = f k) (sort_key f (rev xs))) = filter (\<lambda>x. f x = f k) xs"
    by (simp add: rev_filter)
  moreover have "(\<lambda>x. - f k = - f x) = (\<lambda>x. f x = f k)" by auto
  ultimately show "filter (\<lambda>x. - f k = - f x) (rev (sort_key f (rev xs)))
      = filter (\<lambda>x. - f k = - f x) xs"
    by (simp add: rev_filter)
next
  have "sorted (map f (sort_key f (rev xs)))" by simp
  then show "sorted (map (\<lambda>x. - f x) (rev (sort_key f (rev xs))))"
    by (rule sorted_rev_uminus)
qed

lemma sorted_lex_insort_key:
  fixes f :: "'a \<Rightarrow> 'b::linorder" and g :: "'a \<Rightarrow> 'c::linorder"
  assumes "sorted (map (\<lambda>x. (g x, f x)) zs)" and "\<forall>z\<in>set zs. f y \<le> f z"
  shows "sorted (map (\<lambda>x. (g x, f x)) (insort_key g y zs))"
  using assms
  by (induction zs) (auto simp: less_eq_prod_def set_insort_key)

lemma sorted_lex_sort_key:
  fixes f :: "'a \<Rightarrow> 'b::linorder" and g :: "'a \<Rightarrow> 'c::linorder"
  assumes "sorted (map f ys)"
  shows "sorted (map (\<lambda>x. (g x, f x)) (sort_key g ys))"
  using assms
  by (induction ys) (auto intro!: sorted_lex_insort_key)

text \<open>A stable sort by \<open>f\<close> followed by a stable sort by \<open>g\<close> is the stable sort by the
  pair \<open>(g, f)\<close>.\<close>

lemma sort_key_twice:
  fixes f :: "'a \<Rightarrow> 'b::linorder" and g :: "'a \<Rightarrow> 'c::linorder"
  shows "sort_key g (sort_key f xs) = sort_key (\<lambda>x. (g x, f x)) xs"
proof (rule properties_for_sort_key [symmetric])
  show "mset (sort_key g (sort_key f xs)) = mset xs" by simp
next
  fix k
  let ?P = "\<lambda>x. (g k, f k) = (g x, f x)"
  have eq: "?P = (\<lambda>x. f x = f k \<and> g x = g k)" by auto
  have "filter (\<lambda>x. f x = f k) (filter (\<lambda>x. g x = g k) (sort_key g (sort_key f xs)))
      = filter (\<lambda>x. f x = f k) (filter (\<lambda>x. g x = g k) (sort_key f xs))"
    by (simp only: sort_key_stable)
  also have "\<dots> = filter (\<lambda>x. g x = g k) (filter (\<lambda>x. f x = f k) (sort_key f xs))"
    by (simp add: conj_commute)
  also have "\<dots> = filter (\<lambda>x. g x = g k) (filter (\<lambda>x. f x = f k) xs)"
    by (simp only: sort_key_stable)
  finally show "filter ?P (sort_key g (sort_key f xs)) = filter ?P xs"
    unfolding eq by (simp add: conj_commute)
next
  show "sorted (map (\<lambda>x. (g x, f x)) (sort_key g (sort_key f xs)))"
    by (rule sorted_lex_sort_key) simp
qed

section \<open>Mode XYZ\<close>

lemma sorted_py_axis: "sorted_py (itemgetter k) r xs = sort_key (axis_key k r) xs"
proof (cases r)
  case True
  have "axis_key k True = (\<lambda>x. - itemgetter k x)" by (rule ext) (simp add: axis_key_def)
  with True show ?thesis by (simp add: sorted_py_def rev_sort_key_rev)
next
  case False
  have "axis_key k False = itemgetter k" by (rule ext) (simp add: axis_key_def)
  with False show ?thesis by (simp add: sorted_py_def)
qed

lemma sort_XYZ_successive: "sort_XYZ rx ry rz v = successive_stable_sorts rx ry rz v"
  by (simp add: sort_XYZ_def op_order_def successive_stable_sorts_def sorted_py_axis)

lemma successive_lex:
  "successive_stable_sorts rx ry rz v = sort_key (lex_key rx ry rz) (enumerate_verts v)"
  unfolding successive_stable_sorts_def lex_key_def by (simp only: sort_key_twice)


lemma emit_outputs_list_Inr:
  assumes "emit_outputs vert_of last_of po oo (PyList s) p = Inr (vs, pe, io)"
  shows "vs = map vert_of s" and "io = (if oo then Some (map last_of s) else None)"
  using assms by (auto simp: emit_outputs_def split: if_splits sum.splits)

lemma map_item_vert_enumerate:
  "map item_vert (map (\<lambda>(i, (x, y, z)). (x, y, z, i)) (enumerate n w)) = w"
  by (induction w arbitrary: n) auto

lemma map_item_last_enumerate:
  "map item_last (map (\<lambda>(i, (x, y, z)). (x, y, z, i)) (enumerate n w)) = [n..<n + length w]"
  by (induction w arbitrary: n) (auto simp: upt_rec)

lemma item_vert_enumerate_verts: "map item_vert (enumerate_verts w) = w"
  by (simp only: enumerate_verts_def map_item_vert_enumerate)

lemma item_last_enumerate_verts: "map item_last (enumerate_verts w) = [0..<length w]"
  by (simp only: enumerate_verts_def map_item_last_enumerate) simp

lemma length_sort_XYZ: "length (sort_XYZ rx ry rz v) = length v"
  by (simp add: sort_XYZ_successive successive_lex enumerate_verts_def)


lemma lex_key_vert: "item_vert a = item_vert b \<Longrightarrow> lex_key rx ry rz a = lex_key rx ry rz b"
  by (cases a; cases b) (simp add: lex_key_def axis_key_def)

lemma map_lex_key_vert:
  "map item_vert xs = map item_vert ys \<Longrightarrow> map (lex_key rx ry rz) xs = map (lex_key rx ry rz) ys"
proof (induction xs arbitrary: ys)
  case Nil
  then show ?case by simp
next
  case (Cons x xs)
  then obtain y ys' where ys: "ys = y # ys'" by (cases ys) auto
  with Cons show ?case by (auto intro: lex_key_vert)
qed

text \<open>Sorting the vertex output of a previous sort leaves the enumerated list as it is.\<close>

lemma sort_XYZ_sorted_input:
  assumes "w = map item_vert (sort_XYZ rx ry rz v)"
  shows "sort_XYZ rx ry rz w = enumerate_verts w"
proof -
  let ?K = "lex_key rx ry rz"
  let ?s = "sort_key ?K (enumerate_verts v)"
  have s: "sort_XYZ rx ry rz v = ?s" by (simp add: sort_XYZ_successive successive_lex)
  have "map item_vert (enumerate_verts w) = map item_vert ?s"
    using assms s by (simp add: item_vert_enumerate_verts)
  then have "map ?K (enumerate_verts w) = map ?K ?s" by (rule map_lex_key_vert)
  moreover have "sorted (map ?K ?s)" by simp
  ultimately have "sorted (map ?K (enumerate_verts w))" by simp
  then have "sort_key ?K (enumerate_verts w) = enumerate_verts w" by (rule sort_key_id_if_sorted)
  then show ?thesis by (simp add: sort_XYZ_successive successive_lex)
qed

text \<open>
  Claim C9, idempotence of the axis sort. Whatever the three reverse flags, running mode
  XYZ on the vertex output \<open>vs\<close> of a previous run with the same flags returns \<open>vs\<close>
  unchanged and the identity permutation 0, 1, ..., N-1 as item order.
\<close>

theorem xyz_idempotent:
  assumes "process_XYZ rx ry rz po oo v p = Inr (vs, pe, io)"
    and "process_XYZ rx ry rz po' True vs p' = Inr (vs', pe', io')"
  shows "vs' = vs \<and> io' = Some [0..<length v]"
proof -
  from assms(1) have vs: "vs = map item_vert (sort_XYZ rx ry rz v)"
    unfolding process_XYZ_def by (rule emit_outputs_list_Inr)
  then have s: "sort_XYZ rx ry rz vs = enumerate_verts vs" by (rule sort_XYZ_sorted_input)
  have len: "length vs = length v" by (simp add: vs length_sort_XYZ)
  from assms(2) have e: "emit_outputs item_vert item_last po' True (PyList (enumerate_verts vs)) p'
      = Inr (vs', pe', io')"
    unfolding process_XYZ_def s .
  have "vs' = map item_vert (enumerate_verts vs)"
    and "io' = Some (map item_last (enumerate_verts vs))"
    using emit_outputs_list_Inr [OF e] by simp_all
  then show ?thesis by (simp add: item_vert_enumerate_verts item_last_enumerate_verts len)
qed

theorem xyz_idempotent_witness:
  "process_XYZ True False True True True [(1, 5, 0), (3, 2, 0), (2, 2, 1)] [[0, 1], [1, 2]] =
     Inr ([(2, 2, 1), (3, 2, 0), (1, 5, 0)], Some [[2, 1], [1, 0]], Some [2, 1, 0])
   \<and> process_XYZ True False True True True [(2, 2, 1), (3, 2, 0), (1, 5, 0)] [[0, 1]] =
     Inr ([(2, 2, 1), (3, 2, 0), (1, 5, 0)], Some [[0, 1]], Some [0, 1, 2])"
proof -
  have a: "process_XYZ True False True True True [(1, 5, 0), (3, 2, 0), (2, 2, 1)] [[0, 1], [1, 2]] =
     Inr ([(2, 2, 1), (3, 2, 0), (1, 5, 0)], Some [[2, 1], [1, 0]], Some [2, 1, 0])"
    by (simp add: process_XYZ_def emit_outputs_def remap_poly_edge_def dict_get_def v_index_def
        sort_XYZ_def op_order_def sorted_py_def enumerate_verts_def)
  have b: "process_XYZ True False True True True [(2, 2, 1), (3, 2, 0), (1, 5, 0)] [[0, 1]] =
     Inr ([(2, 2, 1), (3, 2, 0), (1, 5, 0)], Some [[0, 1]], Some [0, 1, 2])"
    by (simp add: process_XYZ_def emit_outputs_def remap_poly_edge_def dict_get_def v_index_def
        sort_XYZ_def op_order_def sorted_py_def enumerate_verts_def)
  from xyz_idempotent [OF a b] a b show ?thesis by simp
qed

section \<open>The connectivity walk\<close>


lemma list_index_mem: "x \<in> set xs \<Longrightarrow> \<exists>k. list_index xs x = Inr k \<and> k < length xs \<and> xs ! k = x"
  by (induction xs) auto

lemma list_index_Inr: "list_index xs x = Inr k \<Longrightarrow> k < length xs \<and> xs ! k = x"
  by (induction xs arbitrary: k) (auto split: if_splits sum.splits)


lemma visit_side_Inr:
  assumes "visit_side verts_in (st, ed) side = Inr (st', ed')"
  shows "side < length verts_in"
    and "verts_in ! side \<in> set (verts_out st) \<Longrightarrow> st' = st"
    and "verts_in ! side \<notin> set (verts_out st) \<Longrightarrow>
           st' = st\<lparr>verts_out := verts_out st @ [verts_in ! side], index := index st @ [side]\<rparr>"
    and "\<exists>k. ed' = ed @ [k] \<and> k < length (verts_out st') \<and> verts_out st' ! k = verts_in ! side"
  using assms
  by (auto simp: visit_side_def nth_err_def split: if_splits sum.splits dest!: list_index_Inr)

lemma visit_side_inv:
  assumes "visit_side verts_in (st, ed) side = Inr (st', ed')"
    and "walk_inv verts_in (verts_out st) (index st)"
  shows "walk_inv verts_in (verts_out st') (index st')"
proof (cases "verts_in ! side \<in> set (verts_out st)")
  case True
  with visit_side_Inr(2) [OF assms(1)] assms(2) show ?thesis by simp
next
  case False
  from visit_side_Inr(1) [OF assms(1)] visit_side_Inr(3) [OF assms(1) False] assms(2) False
  show ?thesis by (auto simp: walk_inv_def)
qed

lemma visit_side_frame:
  assumes "visit_side verts_in (st, ed) side = Inr (st', ed')"
  shows "edges_out st' = edges_out st" "edges_copy st' = edges_copy st"
    "ed_index st' = ed_index st" "or_side st' = or_side st"
  using assms
  by (auto simp: visit_side_def nth_err_def split: if_splits sum.splits)

lemma take_edge_frame:
  assumes "take_edge ec k side st = Inr st'"
  shows "verts_out st' = verts_out st" "index st' = index st" "edges_out st' = edges_out st"
  using assms by (auto simp: take_edge_def split: sum.splits)

lemma find_next_frame:
  assumes "find_next v st = Inr st'"
  shows "verts_out st' = verts_out st" "index st' = index st" "edges_out st' = edges_out st"
  using assms
  by (auto simp: find_next_def split: prod.splits if_splits sum.splits dest: take_edge_frame)

lemma restart_frame:
  assumes "restart limiting limits old st = Inr st'"
  shows "verts_out st' = verts_out st" "index st' = index st" "edges_out st' = edges_out st"
  using assms
  by (auto simp: restart_def split: prod.splits if_splits sum.splits option.splits dest: take_edge_frame)

lemma walk_step_inv:
  assumes "walk_step verts_in edges_in limiting limits st = Inr st'"
    and "walk_inv verts_in (verts_out st) (index st)"
  shows "walk_inv verts_in (verts_out st') (index st')"
proof -
  from assms(1) obtain e st1 ed1 st2 ed st4 where
    v1: "visit_side verts_in (st, []) (fst e) = Inr (st1, ed1)" and
    v2: "visit_side verts_in (st1, ed1) (snd e) = Inr (st2, ed)" and
    f: "find_next (snd e) (st2\<lparr>edges_out := edges_out st2 @ [ed]\<rparr>) = Inr st4" and
    r: "restart limiting limits (ed_index st) st4 = Inr st'"
    by (auto simp: walk_step_def split: sum.splits prod.splits)
  from visit_side_inv [OF v1 assms(2)] have "walk_inv verts_in (verts_out st1) (index st1)" .
  from visit_side_inv [OF v2 this] have "walk_inv verts_in (verts_out st2) (index st2)" .
  with find_next_frame [OF f] restart_frame [OF r] show ?thesis by simp
qed

lemma walk_loop_inv:
  assumes "walk_loop verts_in edges_in limiting limits n st = Inr st'"
    and "walk_inv verts_in (verts_out st) (index st)"
  shows "walk_inv verts_in (verts_out st') (index st')"
  using assms
proof (induction n arbitrary: st)
  case 0
  then show ?case by simp
next
  case (Suc n)
  then show ?case by (auto split: sum.splits dest: walk_step_inv)
qed

lemma add_unconnected_inv:
  assumes "walk_inv verts_in (fst acc) (snd acc)"
    and "\<forall>(x, i)\<in>set ps. i < length verts_in \<and> verts_in ! i = x"
  shows "walk_inv verts_in (fst (add_unconnected ps acc)) (snd (add_unconnected ps acc))"
  using assms
proof (induction ps arbitrary: acc)
  case Nil
  then show ?case by simp
next
  case (Cons q ps)
  obtain x i where q: "q = (x, i)" by (cases q)
  from Cons.prems(2) q have xi: "i < length verts_in" "verts_in ! i = x"
    and rest: "\<forall>(x, i)\<in>set ps. i < length verts_in \<and> verts_in ! i = x"
    by auto
  show ?case
  proof (cases "x \<in> set (fst acc)")
    case True
    with Cons.IH [OF Cons.prems(1) rest] q show ?thesis by simp
  next
    case False
    let ?acc = "(fst acc @ [x], snd acc @ [i])"
    from Cons.prems(1) xi False have "walk_inv verts_in (fst ?acc) (snd ?acc)"
      by (simp add: walk_inv_def)
    from Cons.IH [OF this rest] q False show ?thesis by simp
  qed
qed

lemma add_unconnected_set:
  "set (fst (add_unconnected ps acc)) = set (fst acc) \<union> fst ` set ps"
  by (induction ps acc rule: add_unconnected.induct) auto

lemma zip_upt_props: "\<forall>(x, i)\<in>set (zip verts_in [0..<length verts_in]). i < length verts_in \<and> verts_in ! i = x"
  by (auto simp: set_zip)

lemma fst_set_zip_upt: "fst ` set (zip verts_in [0..<length verts_in]) = set verts_in"
  by (force simp: set_zip in_set_conv_nth)

lemma sort_vertices_Inr_cases:
  assumes "sort_vertices_by_connexions verts_in edges_in limit_mode = Inr (vo, eo, idx)"
  obtains limits0 ec st where
    "(if limit_mode then find_limits verts_in edges_in else Inr []) = Inr limits0"
    "pop_lower_level (map fst edges_in, map snd edges_in, [0..<length edges_in])
       (if limit_mode \<and> length limits0 > 0 then snd (snd (hd limits0)) else 0) = Inr ec"
    "walk_loop verts_in edges_in (limit_mode \<and> length limits0 > 0)
        (if limit_mode \<and> length limits0 > 0 then tl limits0 else limits0) (length edges_in)
        \<lparr>verts_out = [], edges_out = [], index = [], edges_copy = ec,
         ed_index = (if limit_mode \<and> length limits0 > 0 then snd (snd (hd limits0)) else 0),
         or_side = (if limit_mode \<and> length limits0 > 0 then fst (snd (hd limits0)) else 0)\<rparr> = Inr st"
    "eo = edges_out st"
    "(vo, idx) = (if length (verts_out st) \<noteq> length verts_in
                  then add_unconnected (zip verts_in [0..<length verts_in]) (verts_out st, index st)
                  else (verts_out st, index st))"
proof -
  let ?fl = "if limit_mode then find_limits verts_in edges_in else Inr []"
  obtain limits0 where l: "?fl = Inr limits0"
  proof (cases ?fl)
    case (Inl e)
    with assms show ?thesis by (simp add: sort_vertices_by_connexions_def)
  next
    case (Inr x)
    then show ?thesis using that by blast
  qed
  let ?lg = "limit_mode \<and> length limits0 > 0"
  let ?ed0 = "if ?lg then snd (snd (hd limits0)) else 0"
  let ?pl = "pop_lower_level (map fst edges_in, map snd edges_in, [0..<length edges_in]) ?ed0"
  obtain ec where p: "?pl = Inr ec"
  proof (cases ?pl)
    case (Inl e)
    with assms l show ?thesis by (simp add: sort_vertices_by_connexions_def Let_def)
  next
    case (Inr x)
    then show ?thesis using that by blast
  qed
  let ?wl = "walk_loop verts_in edges_in ?lg (if ?lg then tl limits0 else limits0) (length edges_in)
        \<lparr>verts_out = [], edges_out = [], index = [], edges_copy = ec,
         ed_index = ?ed0, or_side = (if ?lg then fst (snd (hd limits0)) else 0)\<rparr>"
  obtain st where w: "?wl = Inr st"
  proof (cases ?wl)
    case (Inl e)
    with assms l p show ?thesis by (simp add: sort_vertices_by_connexions_def Let_def)
  next
    case (Inr x)
    then show ?thesis using that by blast
  qed
  from assms l p w have "eo = edges_out st"
    and "(vo, idx) = (if length (verts_out st) \<noteq> length verts_in
                  then add_unconnected (zip verts_in [0..<length verts_in]) (verts_out st, index st)
                  else (verts_out st, index st))"
    by (simp_all add: sort_vertices_by_connexions_def Let_def split: prod.splits if_splits)
  with l p w show ?thesis using that by blast
qed

lemma sort_vertices_inv:
  assumes "sort_vertices_by_connexions verts_in edges_in limit_mode = Inr (vo, eo, idx)"
  shows "walk_inv verts_in vo idx"
proof -
  from assms obtain limits0 ec st where
    w: "walk_loop verts_in edges_in (limit_mode \<and> length limits0 > 0)
        (if limit_mode \<and> length limits0 > 0 then tl limits0 else limits0) (length edges_in)
        \<lparr>verts_out = [], edges_out = [], index = [], edges_copy = ec,
         ed_index = (if limit_mode \<and> length limits0 > 0 then snd (snd (hd limits0)) else 0),
         or_side = (if limit_mode \<and> length limits0 > 0 then fst (snd (hd limits0)) else 0)\<rparr> = Inr st"
    and r: "(vo, idx) = (if length (verts_out st) \<noteq> length verts_in
                  then add_unconnected (zip verts_in [0..<length verts_in]) (verts_out st, index st)
                  else (verts_out st, index st))"
    by (rule sort_vertices_Inr_cases)
  have i: "walk_inv verts_in (verts_out st) (index st)"
    by (rule walk_loop_inv [OF w]) (simp add: walk_inv_def)
  show ?thesis
  proof (cases "length (verts_out st) \<noteq> length verts_in")
    case True
    let ?r = "add_unconnected (zip verts_in [0..<length verts_in]) (verts_out st, index st)"
    from i have "walk_inv verts_in (fst (verts_out st, index st)) (snd (verts_out st, index st))" by simp
    from add_unconnected_inv [OF this zip_upt_props]
    have "walk_inv verts_in (fst ?r) (snd ?r)" .
    moreover from r True have "vo = fst ?r" "idx = snd ?r" by (simp_all add: prod_eq_iff)
    ultimately show ?thesis by simp
  next
    case False
    with r i show ?thesis by simp
  qed
qed

lemma walk_inv_subset: "walk_inv verts_in vo idx \<Longrightarrow> set vo \<subseteq> set verts_in"
  by (auto simp: walk_inv_def)

lemma walk_inv_length: "walk_inv verts_in vo idx \<Longrightarrow> length idx = length vo"
  by (auto simp: walk_inv_def)

lemma walk_inv_distinct_idx: "walk_inv verts_in vo idx \<Longrightarrow> distinct idx"
  unfolding walk_inv_def by (metis distinct_map)

lemma sort_vertices_complete:
  assumes "sort_vertices_by_connexions verts_in edges_in limit_mode = Inr (vo, eo, idx)"
  shows "set vo = set verts_in"
proof -
  from assms obtain limits0 ec st where
    w: "walk_loop verts_in edges_in (limit_mode \<and> length limits0 > 0)
        (if limit_mode \<and> length limits0 > 0 then tl limits0 else limits0) (length edges_in)
        \<lparr>verts_out = [], edges_out = [], index = [], edges_copy = ec,
         ed_index = (if limit_mode \<and> length limits0 > 0 then snd (snd (hd limits0)) else 0),
         or_side = (if limit_mode \<and> length limits0 > 0 then fst (snd (hd limits0)) else 0)\<rparr> = Inr st"
    and r: "(vo, idx) = (if length (verts_out st) \<noteq> length verts_in
                  then add_unconnected (zip verts_in [0..<length verts_in]) (verts_out st, index st)
                  else (verts_out st, index st))"
    by (rule sort_vertices_Inr_cases)
  have i: "walk_inv verts_in (verts_out st) (index st)"
    by (rule walk_loop_inv [OF w]) (simp add: walk_inv_def)
  then have sub: "set (verts_out st) \<subseteq> set verts_in" by (rule walk_inv_subset)
  show ?thesis
  proof (cases "length (verts_out st) \<noteq> length verts_in")
    case True
    with r have "vo = fst (add_unconnected (zip verts_in [0..<length verts_in]) (verts_out st, index st))"
      by (simp add: prod_eq_iff)
    then have "set vo = set (verts_out st) \<union> set verts_in"
      by (simp add: add_unconnected_set fst_set_zip_upt)
    with sub show ?thesis by auto
  next
    case False
    with r have vo: "vo = verts_out st" by simp
    from i have d: "distinct (verts_out st)" by (simp add: walk_inv_def)
    from False d have "card (set (verts_out st)) = length verts_in"
      by (simp add: distinct_card)
    moreover have "card (set verts_in) \<le> length verts_in" by (rule card_length)
    ultimately have "card (set verts_in) \<le> card (set (verts_out st))" by simp
    with sub have "set (verts_out st) = set verts_in"
      by (intro card_seteq) auto
    with vo show ?thesis by simp
  qed
qed

lemma sort_vertices_perm:
  assumes "sort_vertices_by_connexions verts_in edges_in limit_mode = Inr (vo, eo, idx)"
    and "distinct verts_in"
  shows "distinct idx" and "set idx = {..<length verts_in}"
proof -
  have inv: "walk_inv verts_in vo idx" using assms(1) by (rule sort_vertices_inv)
  then show "distinct idx" by (rule walk_inv_distinct_idx)
  have c: "set vo = set verts_in" using assms(1) by (rule sort_vertices_complete)
  show "set idx = {..<length verts_in}"
  proof (intro equalityI subsetI)
    fix i assume "i \<in> set idx"
    with inv show "i \<in> {..<length verts_in}" by (simp add: walk_inv_def)
  next
    fix i assume "i \<in> {..<length verts_in}"
    then have i: "i < length verts_in" by simp
    then have "verts_in ! i \<in> set vo" using c by simp
    with inv obtain j where j: "j \<in> set idx" "verts_in ! j = verts_in ! i"
      by (auto simp: walk_inv_def)
    with inv have "j < length verts_in" by (simp add: walk_inv_def)
    with j(2) i assms(2) have "j = i" by (simp add: nth_eq_iff_index_eq)
    with j(1) show "i \<in> set idx" by simp
  qed
qed

lemma not_distinct_shorter:
  assumes "walk_inv verts_in vo idx" and "\<not> distinct verts_in"
  shows "length idx < length verts_in"
proof -
  from assms(1) have "length idx = card (set vo)"
    by (simp add: walk_inv_length distinct_card walk_inv_def)
  also have "\<dots> \<le> card (set verts_in)"
    using assms(1) by (intro card_mono) (auto dest: walk_inv_subset)
  also have "\<dots> < length verts_in"
    using assms(2) card_distinct [of verts_in] card_length [of verts_in] by (cases "card (set verts_in) = length verts_in") auto
  finally show ?thesis .
qed

text \<open>
  Claim C2, as amended. With limit detection on, for every list of four points with
  pairwise different coordinates and the edges (0,1), (1,2), (2,3), the walk starts at the
  endpoint 0, the item order is 0, 1, 2, 3, the vertex output is the input, and the
  reindexed edges are (0,1), (1,2), (2,3).
\<close>

theorem chain_round_trip:
  assumes "distinct [a, b, c, d]"
  shows "sort_vertices_by_connexions [a, b, c, d] [(0, 1), (1, 2), (2, 3)] True
           = Inr ([a, b, c, d], [[0, 1], [1, 2], [2, 3]], [0, 1, 2, 3])"
  using assms
  by (auto simp: sort_vertices_by_connexions_def find_limits_def count_end_def
      pop_lower_level_def pop_def walk_step_def oriented_edge_def nth_err_def visit_side_def
      find_next_def take_edge_def restart_def Let_def upt_rec numeral_3_eq_3 numeral_2_eq_2)

theorem chain_round_trip_witness:
  "distinct [(0, 0, 0), (1, 0, 0), (1, 1, 0), (2, 1, 0) :: vert]
   \<and> sort_vertices_by_connexions [(0, 0, 0), (1, 0, 0), (1, 1, 0), (2, 1, 0) :: vert]
         [(0, 1), (1, 2), (2, 3)] True
       = Inr ([(0, 0, 0), (1, 0, 0), (1, 1, 0), (2, 1, 0)], [[0, 1], [1, 2], [2, 3]], [0, 1, 2, 3])"
proof -
  have d: "distinct [(0, 0, 0), (1, 0, 0), (1, 1, 0), (2, 1, 0) :: vert]" by simp
  from chain_round_trip [OF d] d show ?thesis by simp
qed

text \<open>The claim as stated, for every list of four points, fails when two of the points
  have the same coordinates: points 1 and 2 coincide here, point 2 is not in the item
  order and the reindexed edges are not the chain.\<close>

theorem chain_round_trip_counterexample:
  "sort_vertices_by_connexions [(0, 0, 0), (1, 0, 0), (1, 0, 0), (2, 0, 0) :: vert]
       [(0, 1), (1, 2), (2, 3)] True
     = Inr ([(0, 0, 0), (1, 0, 0), (2, 0, 0)], [[0, 1], [1, 1], [1, 2]], [0, 1, 3])"
  by (simp add: sort_vertices_by_connexions_def find_limits_def count_end_def
      pop_lower_level_def pop_def walk_step_def oriented_edge_def nth_err_def visit_side_def
      find_next_def take_edge_def restart_def Let_def upt_rec numeral_3_eq_3 numeral_2_eq_2)

text \<open>
  Claim C3 fails on the code when limit detection is on: for five different points and the
  edges (0,1), (2,3), (3,4), (4,2), every point of degree 1 or 2, the walk dead-ends after
  the edge (0,1), finds no unvisited limit, keeps the current edge and emits it in each of
  the four iterations; the three edges of the cycle are never emitted. Without limit
  detection the same input gives every edge once.
\<close>

theorem limit_walk_repeats_edge:
  "sort_vertices_by_connexions [10, 11, 12, 13, 14 :: nat] [(0, 1), (2, 3), (3, 4), (4, 2)] True
     = Inr ([10, 11, 12, 13, 14], [[0, 1], [0, 1], [0, 1], [0, 1]], [0, 1, 2, 3, 4])
   \<and> sort_vertices_by_connexions [10, 11, 12, 13, 14 :: nat] [(0, 1), (2, 3), (3, 4), (4, 2)] False
     = Inr ([10, 11, 12, 13, 14], [[0, 1], [2, 3], [3, 4], [4, 2]], [0, 1, 2, 3, 4])"
  by code_simp

section \<open>The order of the limits\<close>

lemma find_limits_sorted:
  assumes "find_limits verts_in edges_in = Inr limits0"
  shows "sorted_wrt (<) (map fst limits0)"
proof -
  obtain vc :: "(nat \<times> nat \<times> nat) list" where
    l: "limits0 = map (\<lambda>(i, c). (i, snd c)) (filter (\<lambda>(i, c). fst c = 1) (enumerate 0 vc))"
  proof (cases "count_edges (replicate (length verts_in) (0, 0, 0)) 0 edges_in")
    case (Inl e)
    with assms show ?thesis by (simp add: find_limits_def)
  next
    case (Inr vc)
    with assms have "limits0 = map (\<lambda>(i, c). (i, snd c)) (filter (\<lambda>(i, c). fst c = 1) (enumerate 0 vc))"
      by (simp add: find_limits_def del: One_nat_def)
    then show ?thesis using that by blast
  qed
  have "sorted_wrt (<) (map fst (enumerate 0 vc))" by simp
  then have "sorted_wrt (\<lambda>a b. fst a < fst b) (enumerate 0 vc)" by (simp only: sorted_wrt_map)
  then have "sorted_wrt (\<lambda>a b. fst a < fst b) (filter (\<lambda>(i, c). fst c = 1) (enumerate 0 vc))"
    by (rule sorted_wrt_filter)
  then show ?thesis unfolding l by (simp add: sorted_wrt_map case_prod_beta)
qed

lemma sorted_wrt_tl: "sorted_wrt P xs \<Longrightarrow> sorted_wrt P (tl xs)"
  by (cases xs) auto

section \<open>Index remapping\<close>

lemma map_err_Inr_D: "map_err f xs = Inr ys \<Longrightarrow> list_all2 (\<lambda>x y. f x = Inr y) xs ys"
  by (induction xs arbitrary: ys) (auto split: sum.splits)

lemma map_err_Inr_I: "list_all2 (\<lambda>x y. f x = Inr y) xs ys \<Longrightarrow> map_err f xs = Inr ys"
  by (induction rule: list_all2_induct) auto

lemma map_err_Inr_iff: "map_err f xs = Inr ys \<longleftrightarrow> list_all2 (\<lambda>x y. f x = Inr y) xs ys"
  by (blast intro: map_err_Inr_D map_err_Inr_I)

lemma map_err_Inl_iff: "map_err f xs = Inl e \<longleftrightarrow> (\<exists>as x bs. xs = as @ x # bs \<and> (\<forall>a\<in>set as. \<exists>y. f a = Inr y) \<and> f x = Inl e)"
proof (induction xs)
  case Nil
  then show ?case by simp
next
  case (Cons z zs)
  show ?case
  proof (cases "f z")
    case (Inl e')
    show ?thesis
    proof
      assume "map_err f (z # zs) = Inl e"
      with Inl have "f z = Inl e" by simp
      then have "z # zs = [] @ z # zs \<and> (\<forall>a\<in>set []. \<exists>y. f a = Inr y) \<and> f z = Inl e" by simp
      then show "\<exists>as x bs. z # zs = as @ x # bs \<and> (\<forall>a\<in>set as. \<exists>y. f a = Inr y) \<and> f x = Inl e"
        by blast
    next
      assume "\<exists>as x bs. z # zs = as @ x # bs \<and> (\<forall>a\<in>set as. \<exists>y. f a = Inr y) \<and> f x = Inl e"
      then obtain as x bs where h: "z # zs = as @ x # bs" "\<forall>a\<in>set as. \<exists>y. f a = Inr y" "f x = Inl e"
        by blast
      show "map_err f (z # zs) = Inl e"
      proof (cases as)
        case Nil
        with h Inl show ?thesis by simp
      next
        case (Cons a as')
        with h Inl show ?thesis by auto
      qed
    qed
  next
    case (Inr y)
    show ?thesis
    proof
      assume "map_err f (z # zs) = Inl e"
      with Inr have "map_err f zs = Inl e" by (simp split: sum.splits)
      with Cons.IH obtain as x bs where h: "zs = as @ x # bs" "\<forall>a\<in>set as. \<exists>y. f a = Inr y" "f x = Inl e"
        by blast
      with Inr have "z # zs = (z # as) @ x # bs \<and> (\<forall>a\<in>set (z # as). \<exists>y. f a = Inr y) \<and> f x = Inl e"
        by simp
      then show "\<exists>as x bs. z # zs = as @ x # bs \<and> (\<forall>a\<in>set as. \<exists>y. f a = Inr y) \<and> f x = Inl e"
        by blast
    next
      assume "\<exists>as x bs. z # zs = as @ x # bs \<and> (\<forall>a\<in>set as. \<exists>y. f a = Inr y) \<and> f x = Inl e"
      then obtain as x bs where h: "z # zs = as @ x # bs" "\<forall>a\<in>set as. \<exists>y. f a = Inr y" "f x = Inl e"
        by blast
      show "map_err f (z # zs) = Inl e"
      proof (cases as)
        case Nil
        with h Inr show ?thesis by simp
      next
        case (Cons a as')
        with h have "zs = as' @ x # bs" "\<forall>a\<in>set as'. \<exists>y. f a = Inr y" by auto
        with h(3) Cons.IH have "map_err f zs = Inl e" by blast
        with Inr show ?thesis by simp
      qed
    qed
  qed
qed

lemma map_err_Inl_set: "map_err f xs = Inl e \<Longrightarrow> \<exists>x\<in>set xs. f x = Inl e"
  by (auto simp: map_err_Inl_iff)

lemma map_err_total: "(\<forall>x\<in>set xs. \<exists>y. f x = Inr y) \<Longrightarrow> \<exists>ys. map_err f xs = Inr ys"
  by (cases "map_err f xs") (auto dest!: map_err_Inl_set)


text \<open>The dict of positions.\<close>

lemma v_index_fold_dom:
  "dom (foldl (\<lambda>d (j, n). d(n \<mapsto> j)) d0 (enumerate k xs)) = dom d0 \<union> set xs"
  by (induction xs arbitrary: d0 k) auto

lemma v_index_fold_other:
  "n \<notin> set xs \<Longrightarrow> foldl (\<lambda>d (j, n). d(n \<mapsto> j)) d0 (enumerate k xs) n = d0 n"
  by (induction xs arbitrary: d0 k) auto

lemma v_index_fold_nth:
  "distinct xs \<Longrightarrow> j < length xs \<Longrightarrow>
     foldl (\<lambda>d (j, n). d(n \<mapsto> j)) d0 (enumerate k xs) (xs ! j) = Some (k + j)"
proof (induction xs arbitrary: d0 k j)
  case Nil
  then show ?case by simp
next
  case (Cons x xs)
  show ?case
  proof (cases j)
    case 0
    from Cons.prems have "x \<notin> set xs" by simp
    then have "foldl (\<lambda>d (j, n). d(n \<mapsto> j)) (d0(x \<mapsto> k)) (enumerate (Suc k) xs) x
        = (d0(x \<mapsto> k)) x"
      by (rule v_index_fold_other)
    with 0 show ?thesis
      by (simp only: enumerate_simps foldl_Cons nth_Cons_0 prod.case add_0_right fun_upd_same)
  next
    case (Suc j')
    with Cons.prems Cons.IH [of j' "d0(x \<mapsto> k)" "Suc k"] show ?thesis by simp
  qed
qed

lemma dom_v_index: "dom (v_index lasts) = set lasts"
  by (simp add: v_index_def v_index_fold_dom)

lemma v_index_nth: "distinct lasts \<Longrightarrow> j < length lasts \<Longrightarrow> v_index lasts (lasts ! j) = Some j"
  using v_index_fold_nth [of lasts j Map.empty 0] by (simp add: v_index_def)

lemma v_index_Some:
  assumes "distinct lasts" and "v_index lasts n = Some j"
  shows "j < length lasts \<and> lasts ! j = n"
proof -
  from assms(2) have "n \<in> set lasts" using dom_v_index [of lasts] by auto
  then obtain k where k: "k < length lasts" "lasts ! k = n" by (auto simp: in_set_conv_nth)
  with v_index_nth [OF assms(1) k(1)] assms(2) show ?thesis by simp
qed



lemma remap_poly_edge_Inr:
  assumes "distinct lasts" and "remap_poly_edge lasts p = Inr q"
  shows "list_all2 (list_all2 (\<lambda>n j. j < length lasts \<and> lasts ! j = n)) p q"
proof -
  from assms(2) have "list_all2 (list_all2 (\<lambda>n j. dict_get (v_index lasts) n = Inr j)) p q"
    by (simp add: remap_poly_edge_def map_err_Inr_iff)
  moreover have "dict_get (v_index lasts) n = Inr j \<Longrightarrow> j < length lasts \<and> lasts ! j = n" for n j
    using v_index_Some [OF assms(1), of n j] by (auto simp: dict_get_def split: option.splits)
  ultimately show ?thesis
    by (auto elim!: list_all2_mono)
qed

section \<open>Mode ADIR\<close>

lemma length_enumerate_verts: "length (enumerate_verts v) = length v"
  by (simp add: enumerate_verts_def)

lemma perm_upt_props:
  assumes "mset lasts = mset [0..<n]"
  shows "distinct lasts" and "set lasts = {..<n}"
proof -
  from assms have "distinct lasts \<longleftrightarrow> distinct [0..<n]" by (rule mset_eq_imp_distinct_iff)
  then show "distinct lasts" by simp
  from assms have "set lasts = set [0..<n]" by (rule mset_eq_setD)
  then show "set lasts = {..<n}" by (simp add: atLeast0LessThan)
qed

lemma mset_lasts_sorted:
  "mset (map item_last (sort_key K (enumerate_verts v))) = mset [0..<length v]"
proof -
  have "mset (map item_last (sort_key K (enumerate_verts v))) = mset (map item_last (enumerate_verts v))"
    by simp
  then show ?thesis by (simp only: item_last_enumerate_verts)
qed

lemma emit_outputs_list:
  "emit_outputs vert_of last_of po oo (PyList s) p =
     (if po then (case remap_poly_edge (map last_of s) p of
                    Inl e \<Rightarrow> Inl e
                  | Inr q \<Rightarrow> Inr (map vert_of s, Some q, if oo then Some (map last_of s) else None))
      else Inr (map vert_of s, None, if oo then Some (map last_of s) else None))"
  by (simp add: emit_outputs_def split: sum.splits)

lemma emit_outputs_iter:
  "emit_outputs vert_of last_of po oo (PyIter s) p =
     (if po then (case remap_poly_edge [] p of
                    Inl e \<Rightarrow> Inl e
                  | Inr q \<Rightarrow> Inr (map vert_of s, Some q, if oo then Some [] else None))
      else Inr (map vert_of s, None, if oo then Some [] else None))"
  by (simp add: emit_outputs_def split: sum.splits)

lemma filter_key_le1: "distinct (map g xs) \<Longrightarrow> length (filter (\<lambda>x. g x = c) xs) \<le> 1"
proof (induction xs)
  case Nil
  then show ?case by simp
next
  case (Cons x xs)
  show ?case
  proof (cases "g x = c")
    case True
    from Cons.prems have "g x \<notin> g ` set xs" by simp
    with True have "\<forall>y\<in>set xs. g y \<noteq> c" by blast
    then have "filter (\<lambda>x. g x = c) xs = []"
      by (simp add: filter_empty_conv)
    with True show ?thesis by simp
  next
    case False
    with Cons show ?thesis by simp
  qed
qed

lemma rev_short: "length xs \<le> 1 \<Longrightarrow> rev xs = xs"
  by (cases xs) auto

lemma sort_key_rev_distinct:
  fixes g :: "'a \<Rightarrow> 'k::linorder"
  assumes "distinct (map g xs)"
  shows "sort_key g (rev xs) = sort_key g xs"
proof (rule properties_for_sort_key)
  show "mset (sort_key g xs) = mset (rev xs)" by simp
next
  fix k
  have eq: "(\<lambda>x. g k = g x) = (\<lambda>x. g x = g k)" by auto
  have "filter (\<lambda>x. g x = g k) (rev xs) = rev (filter (\<lambda>x. g x = g k) xs)" by (simp add: rev_filter)
  also have "\<dots> = filter (\<lambda>x. g x = g k) xs"
    by (rule rev_short) (rule filter_key_le1 [OF assms])
  finally show "filter (\<lambda>x. g k = g x) (sort_key g xs) = filter (\<lambda>x. g k = g x) (rev xs)"
    unfolding eq by (simp only: sort_key_stable)
next
  show "sorted (map g (sort_key g xs))" by simp
qed

lemma rev_sort_key_distinct:
  fixes f :: "'a \<Rightarrow> real"
  assumes "distinct (map f xs)"
  shows "rev (sort_key f xs) = sort_key (\<lambda>x. - f x) xs"
proof -
  have "rev (sort_key f (rev (rev xs))) = sort_key (\<lambda>x. - f x) (rev xs)"
    by (rule rev_sort_key_rev)
  moreover have "distinct (map (\<lambda>x. - f x) xs)"
    using assms by (simp add: distinct_map inj_on_def)
  ultimately show ?thesis by (simp add: sort_key_rev_distinct)
qed

lemma map_key_ADIR: "map (key_ADIR d) (enumerate_verts v) = map (\<lambda>w. dot w d) v"
proof -
  have "map (key_ADIR d) (enumerate_verts v) = map (\<lambda>w. dot w d) (map item_vert (enumerate_verts v))"
    by (simp add: key_ADIR_def)
  then show ?thesis by (simp only: item_vert_enumerate_verts)
qed

text \<open>
  Claim C6, as amended. In mode ADIR the sort key of a point is its scalar projection onto
  the direction. With reverse off, the vertex, edge and item-order outputs are those of
  the stable sort by that key, all read from the one sorted list: output position \<open>j\<close>
  holds the point whose original index is the \<open>j\<close>-th item order entry, and every edge
  reference \<open>n\<close> is replaced by the position of the original index \<open>n\<close>. With reverse on,
  the vertex output is the reverse of that sorted list, so points with equal projections
  come out in reversed original order; when the projections are pairwise different this
  is the stable sort by the negated projection.
\<close>

theorem adir_outputs:
  "(process_ADIR direction False po oo v p = Inr (vs, pe, io) \<longrightarrow>
      vs = map item_vert (sort_key (key_ADIR direction) (enumerate_verts v))
      \<and> io = (if oo then Some (map item_last (sort_key (key_ADIR direction) (enumerate_verts v))) else None)
      \<and> (po \<longrightarrow> (\<exists>q. pe = Some q \<and>
            list_all2 (list_all2 (\<lambda>n j. j < length v \<and>
               item_last (sort_key (key_ADIR direction) (enumerate_verts v) ! j) = n)) p q)))
   \<and> (process_ADIR direction True po oo v p = Inr (vs, pe, io) \<longrightarrow>
        vs = rev (map item_vert (sort_key (key_ADIR direction) (enumerate_verts v))))
   \<and> (distinct (map (\<lambda>w. dot w direction) v) \<longrightarrow>
        rev (sort_key (key_ADIR direction) (enumerate_verts v)) = negated_projection_sort direction v)"
proof -
  let ?S = "sort_key (key_ADIR direction) (enumerate_verts v)"
  have len: "length ?S = length v" by (simp add: enumerate_verts_def)
  have d: "distinct (map item_last ?S)" using mset_lasts_sorted by (rule perm_upt_props)
  have a: "process_ADIR direction False po oo v p = Inr (vs, pe, io) \<longrightarrow>
      vs = map item_vert ?S \<and> io = (if oo then Some (map item_last ?S) else None)
      \<and> (po \<longrightarrow> (\<exists>q. pe = Some q \<and>
            list_all2 (list_all2 (\<lambda>n j. j < length v \<and> item_last (?S ! j) = n)) p q))"
  proof
    assume "process_ADIR direction False po oo v p = Inr (vs, pe, io)"
    then have e: "emit_outputs item_vert item_last po oo (PyList ?S) p = Inr (vs, pe, io)"
      by (simp add: process_ADIR_def sorted_py_def)
    have 1: "vs = map item_vert ?S" and 2: "io = (if oo then Some (map item_last ?S) else None)"
      using emit_outputs_list_Inr [OF e] by simp_all
    have 3: "po \<longrightarrow> (\<exists>q. pe = Some q \<and>
            list_all2 (list_all2 (\<lambda>n j. j < length v \<and> item_last (?S ! j) = n)) p q)"
    proof
      assume po
      with e obtain q where q: "remap_poly_edge (map item_last ?S) p = Inr q" "pe = Some q"
        by (auto simp: emit_outputs_list split: sum.splits)
      have imp: "j < length v \<and> item_last (?S ! j) = n"
        if "j < length (map item_last ?S) \<and> map item_last ?S ! j = n" for n j
      proof -
        from that have j: "j < length ?S" by simp
        then have "map item_last ?S ! j = item_last (?S ! j)" by (rule nth_map)
        with that j show ?thesis by (simp add: length_enumerate_verts)
      qed
      from remap_poly_edge_Inr [OF d q(1)]
      have "list_all2 (list_all2 (\<lambda>n j. j < length (map item_last ?S) \<and> map item_last ?S ! j = n)) p q" .
      then have "list_all2 (list_all2 (\<lambda>n j. j < length v \<and> item_last (?S ! j) = n)) p q"
        by (rule list_all2_mono) (erule list_all2_mono, rule imp)
      with q(2) show "\<exists>q. pe = Some q \<and>
            list_all2 (list_all2 (\<lambda>n j. j < length v \<and> item_last (?S ! j) = n)) p q" by blast
    qed
    from 1 2 3 show "vs = map item_vert ?S \<and> io = (if oo then Some (map item_last ?S) else None)
      \<and> (po \<longrightarrow> (\<exists>q. pe = Some q \<and>
            list_all2 (list_all2 (\<lambda>n j. j < length v \<and> item_last (?S ! j) = n)) p q))" by blast
  qed
  have b: "process_ADIR direction True po oo v p = Inr (vs, pe, io) \<longrightarrow> vs = rev (map item_vert ?S)"
  proof
    assume "process_ADIR direction True po oo v p = Inr (vs, pe, io)"
    then have "emit_outputs item_vert item_last po oo (PyIter (rev ?S)) p = Inr (vs, pe, io)"
      by (simp add: process_ADIR_def sorted_py_def reversed_def)
    then have "vs = map item_vert (rev ?S)"
      by (simp add: emit_outputs_iter split: if_splits sum.splits)
    then show "vs = rev (map item_vert ?S)" by (simp add: rev_map)
  qed
  have c: "distinct (map (\<lambda>w. dot w direction) v) \<longrightarrow> rev ?S = negated_projection_sort direction v"
  proof
    assume "distinct (map (\<lambda>w. dot w direction) v)"
    then have "distinct (map (key_ADIR direction) (enumerate_verts v))" by (simp only: map_key_ADIR)
    then show "rev ?S = negated_projection_sort direction v"
      unfolding negated_projection_sort_def by (rule rev_sort_key_distinct)
  qed
  from a b c show ?thesis by blast
qed

theorem adir_outputs_witness:
  "process_ADIR (1, 0, 0) False True True [(0, 0, 0), (4, 0, 0), (2, 1, 0), (3, - 1, 0)] [[0, 1], [2, 3]]
     = Inr ([(0, 0, 0), (2, 1, 0), (3, - 1, 0), (4, 0, 0)], Some [[0, 3], [1, 2]], Some [0, 2, 3, 1])
   \<and> process_ADIR (1, 0, 0) True False False [(0, 0, 0), (4, 0, 0), (2, 1, 0), (3, - 1, 0)] [[0, 1], [2, 3]]
     = Inr ([(4, 0, 0), (3, - 1, 0), (2, 1, 0), (0, 0, 0)], None, None)
   \<and> distinct (map (\<lambda>w. dot w (1, 0, 0)) [(0, 0, 0), (4, 0, 0), (2, 1, 0), (3, - 1, 0)])
   \<and> rev (sort_key (key_ADIR (1, 0, 0)) (enumerate_verts [(0, 0, 0), (4, 0, 0), (2, 1, 0), (3, - 1, 0)]))
     = negated_projection_sort (1, 0, 0) [(0, 0, 0), (4, 0, 0), (2, 1, 0), (3, - 1, 0)]"
proof -
  let ?v = "[(0, 0, 0), (4, 0, 0), (2, 1, 0), (3, - 1, 0)] :: vert list"
  have a: "process_ADIR (1, 0, 0) False True True ?v [[0, 1], [2, 3]]
     = Inr ([(0, 0, 0), (2, 1, 0), (3, - 1, 0), (4, 0, 0)], Some [[0, 3], [1, 2]], Some [0, 2, 3, 1])"
    by (simp add: process_ADIR_def emit_outputs_def remap_poly_edge_def dict_get_def v_index_def
        sorted_py_def enumerate_verts_def key_ADIR_def dot_def)
  have b: "process_ADIR (1, 0, 0) True False False ?v [[0, 1], [2, 3]]
     = Inr ([(4, 0, 0), (3, - 1, 0), (2, 1, 0), (0, 0, 0)], None, None)"
    by (simp add: process_ADIR_def emit_outputs_def reversed_def
        sorted_py_def enumerate_verts_def key_ADIR_def dot_def)
  have c: "distinct (map (\<lambda>w. dot w (1, 0, 0)) ?v)" by (simp add: dot_def)
  from adir_outputs [of "(1, 0, 0)" True True ?v "[[0, 1], [2, 3]]" _ _ _] a b c
  show ?thesis by simp
qed

text \<open>The claim as stated fails where two projections are equal. The points (2,1,0) and
  (2,-1,0) have the same projection on the direction (1,0,0), the principal axis of
  these four points: with reverse on, the vertex output lists (2,-1,0) before (2,1,0),
  the stable sort by the negated projection lists them in their original order, with
  item order 1, 2, 3, 0. (The item-order output of that run is empty: \<open>reversed\<close> returns
  an iterator, which the vertex output has already consumed.)\<close>

theorem adir_reverse_counterexample:
  "process_ADIR (1, 0, 0) True False True [(0, 0, 0), (4, 0, 0), (2, 1, 0), (2, - 1, 0)] []
     = Inr ([(4, 0, 0), (2, - 1, 0), (2, 1, 0), (0, 0, 0)], None, Some [])
   \<and> negated_projection_sort (1, 0, 0) [(0, 0, 0), (4, 0, 0), (2, 1, 0), (2, - 1, 0)]
     = [(4, 0, 0, 1), (2, 1, 0, 2), (2, - 1, 0, 3), (0, 0, 0, 0)]"
  by (simp add: process_ADIR_def emit_outputs_def reversed_def negated_projection_sort_def
      sorted_py_def enumerate_verts_def key_ADIR_def dot_def)

section \<open>Failure of the index remapping\<close>




lemma sort_XYZ_lasts: "set (map item_last (sort_XYZ rx ry rz v)) = {..<length v}"
  and sort_XYZ_lasts_distinct: "distinct (map item_last (sort_XYZ rx ry rz v))"
proof -
  have "mset (map item_last (sort_XYZ rx ry rz v)) = mset [0..<length v]"
    unfolding sort_XYZ_successive successive_lex by (rule mset_lasts_sorted)
  then show "set (map item_last (sort_XYZ rx ry rz v)) = {..<length v}"
    and "distinct (map item_last (sort_XYZ rx ry rz v))"
    by (rule perm_upt_props)+
qed








section \<open>Points touched by no edge\<close>

lemma visit_side_grow:
  assumes "visit_side verts_in (st, ed) side = Inr (st', ed')"
  shows "set (index st') \<subseteq> insert side (set (index st))"
    and "length (verts_out st) \<le> length (verts_out st')"
    and "\<forall>k\<in>set ed. k < length (verts_out st) \<Longrightarrow> \<forall>k\<in>set ed'. k < length (verts_out st')"
proof -
  from visit_side_Inr(4) [OF assms] obtain k where
    k: "ed' = ed @ [k]" "k < length (verts_out st')" by blast
  show "set (index st') \<subseteq> insert side (set (index st))"
    and len: "length (verts_out st) \<le> length (verts_out st')"
    using visit_side_Inr(2) [OF assms] visit_side_Inr(3) [OF assms]
    by (cases "verts_in ! side \<in> set (verts_out st)"; auto)+
  assume "\<forall>k\<in>set ed. k < length (verts_out st)"
  with len k show "\<forall>k\<in>set ed'. k < length (verts_out st')" by auto
qed

lemma oriented_edge_touched:
  assumes "oriented_edge edges_in k side = Inr e"
  shows "fst e \<in> touched edges_in" and "snd e \<in> touched edges_in"
proof -
  from assms have k: "k < length edges_in"
    and e: "e = (if side = 1 then (snd (edges_in ! k), fst (edges_in ! k)) else edges_in ! k)"
    by (auto simp: oriented_edge_def nth_err_def split: if_splits)
  from k have "edges_in ! k \<in> set edges_in" by simp
  then have "fst (edges_in ! k) \<in> touched edges_in" "snd (edges_in ! k) \<in> touched edges_in"
    by (auto simp: touched_def)
  with e show "fst e \<in> touched edges_in" and "snd e \<in> touched edges_in"
    by (auto split: if_splits)
qed

lemma walk_step_inv2:
  assumes "walk_step verts_in edges_in limiting limits st = Inr st'"
    and "walk_inv2 edges_in st"
  shows "walk_inv2 edges_in st'"
proof -
  from assms(1) obtain e st1 ed1 st2 ed st4 where
    o: "oriented_edge edges_in (ed_index st) (or_side st) = Inr e" and
    v1: "visit_side verts_in (st, []) (fst e) = Inr (st1, ed1)" and
    v2: "visit_side verts_in (st1, ed1) (snd e) = Inr (st2, ed)" and
    f: "find_next (snd e) (st2\<lparr>edges_out := edges_out st2 @ [ed]\<rparr>) = Inr st4" and
    r: "restart limiting limits (ed_index st) st4 = Inr st'"
    by (auto simp: walk_step_def split: sum.splits prod.splits)
  have i1: "set (index st1) \<subseteq> insert (fst e) (set (index st))"
    and l1: "length (verts_out st) \<le> length (verts_out st1)"
    and e1: "\<forall>k\<in>set ed1. k < length (verts_out st1)"
    using visit_side_grow [OF v1] by simp_all
  have i2: "set (index st2) \<subseteq> insert (snd e) (set (index st1))"
    and l2: "length (verts_out st1) \<le> length (verts_out st2)"
    and e2: "\<forall>k\<in>set ed. k < length (verts_out st2)"
    using visit_side_grow [OF v2] e1 by simp_all
  have eo: "edges_out st2 = edges_out st"
    using visit_side_frame(1) [OF v1] visit_side_frame(1) [OF v2] by simp
  have fin: "verts_out st' = verts_out st2" "index st' = index st2"
    "edges_out st' = edges_out st @ [ed]"
    using find_next_frame [OF f] restart_frame [OF r] eo by simp_all
  from i1 i2 oriented_edge_touched [OF o] assms(2)
  have "set (index st2) \<subseteq> touched edges_in" by (auto simp: walk_inv2_def)
  moreover from assms(2) l1 l2 e2
  have "\<forall>ed'\<in>set (edges_out st @ [ed]). \<forall>k\<in>set ed'. k < length (verts_out st2)"
    by (fastforce simp: walk_inv2_def)
  ultimately show ?thesis by (simp add: walk_inv2_def fin)
qed

lemma walk_loop_inv2:
  assumes "walk_loop verts_in edges_in limiting limits n st = Inr st'"
    and "walk_inv2 edges_in st"
  shows "walk_inv2 edges_in st'"
  using assms
proof (induction n arbitrary: st)
  case 0
  then show ?case by simp
next
  case (Suc n)
  from Suc.prems(1) obtain st1 where
    s: "walk_step verts_in edges_in limiting limits st = Inr st1" and
    l: "walk_loop verts_in edges_in limiting limits n st1 = Inr st'"
    by (auto split: sum.splits)
  from walk_step_inv2 [OF s Suc.prems(2)] have "walk_inv2 edges_in st1" .
  from Suc.IH [OF l this] show ?case .
qed

lemma add_unconnected_distinct:
  assumes "distinct (map fst ps)"
  shows "add_unconnected ps acc =
           (fst acc @ map fst (filter (\<lambda>q. fst q \<notin> set (fst acc)) ps),
            snd acc @ map snd (filter (\<lambda>q. fst q \<notin> set (fst acc)) ps))"
  using assms
proof (induction ps arbitrary: acc)
  case Nil
  then show ?case by simp
next
  case (Cons q ps)
  obtain x i where q: "q = (x, i)" by (cases q)
  from Cons.prems q have d: "distinct (map fst ps)" and x: "x \<notin> fst ` set ps" by auto
  show ?case
  proof (cases "x \<in> set (fst acc)")
    case True
    with Cons.IH [OF d, of acc] q show ?thesis by simp
  next
    case False
    from x have "filter (\<lambda>q. fst q \<notin> set (fst acc @ [x])) ps
        = filter (\<lambda>q. fst q \<notin> set (fst acc)) ps"
      by (intro filter_cong) (auto simp: image_iff)
    with Cons.IH [OF d, of "(fst acc @ [x], snd acc @ [i])"] q False show ?thesis by simp
  qed
qed

lemma map_snd_filter: "map snd (filter (\<lambda>q. P (snd q)) zs) = filter P (map snd zs)"
  by (induction zs) auto

lemma filter_zip_upt:
  assumes "walk_inv verts_in vo idx" and "distinct verts_in"
  shows "map snd (filter (\<lambda>q. fst q \<notin> set vo) (zip verts_in [0..<length verts_in]))
           = filter (\<lambda>i. i \<notin> set idx) [0..<length verts_in]"
proof -
  have eq: "\<And>q. q \<in> set (zip verts_in [0..<length verts_in]) \<Longrightarrow>
              (fst q \<notin> set vo) = (snd q \<notin> set idx)"
  proof -
    fix q assume "q \<in> set (zip verts_in [0..<length verts_in])"
    then have q: "snd q < length verts_in" "verts_in ! snd q = fst q"
      by (auto simp: set_zip)
    show "(fst q \<notin> set vo) = (snd q \<notin> set idx)"
    proof -
      have "fst q \<in> set vo \<longleftrightarrow> snd q \<in> set idx"
      proof
        assume "fst q \<in> set vo"
        with assms(1) obtain j where j: "j \<in> set idx" "verts_in ! j = fst q"
          by (auto simp: walk_inv_def)
        with assms(1) have "j < length verts_in" by (simp add: walk_inv_def)
        with j(2) q assms(2) have "j = snd q" by (metis nth_eq_iff_index_eq)
        with j(1) show "snd q \<in> set idx" by simp
      next
        assume "snd q \<in> set idx"
        then have "verts_in ! snd q \<in> (\<lambda>i. verts_in ! i) ` set idx" by (rule imageI)
        with assms(1) q(2) show "fst q \<in> set vo" by (auto simp: walk_inv_def)
      qed
      then show ?thesis by simp
    qed
  qed
  have "filter (\<lambda>q. fst q \<notin> set vo) (zip verts_in [0..<length verts_in])
      = filter (\<lambda>q. snd q \<notin> set idx) (zip verts_in [0..<length verts_in])"
    by (rule filter_cong) (simp_all add: eq)
  moreover have "map snd (filter (\<lambda>q. snd q \<notin> set idx) (zip verts_in [0..<length verts_in]))
      = filter (\<lambda>i. i \<notin> set idx) (map snd (zip verts_in [0..<length verts_in]))"
    by (rule map_snd_filter)
  moreover have "map snd (zip verts_in [0..<length verts_in]) = [0..<length verts_in]"
    by simp
  ultimately show ?thesis by simp
qed

lemma count_list_distinct: "distinct xs \<Longrightarrow> x \<in> set xs \<Longrightarrow> count_list xs x = 1"
  by (induction xs) auto

text \<open>
  Claim C8, as amended. In the connectivity mode, when the points have pairwise different
  coordinates and the walk returns, every point touched by zero edges occurs exactly once
  in the output order. The order is the traversed points \<open>tr\<close>, all of them touched by an
  edge, followed by the points not traversed in ascending original index, so every point
  touched by zero edges comes after all traversed points, in the original relative
  order; and every entry of the reindexed edges is a position among the traversed points,
  so no reindexed edge refers to a point touched by zero edges.
\<close>

theorem isolated_points_appended:
  assumes r: "sort_vertices_by_connexions verts_in edges_in limit_mode = Inr (vo, eo, idx)"
    and d: "distinct verts_in"
  shows "(\<forall>i<length verts_in. i \<notin> touched edges_in \<longrightarrow> count_list idx i = 1)
    \<and> (\<exists>tr. idx = tr @ filter (\<lambda>i. i \<notin> set tr) [0..<length verts_in]
           \<and> set tr \<subseteq> touched edges_in
           \<and> (\<forall>ed\<in>set eo. \<forall>k\<in>set ed. k < length tr))"
proof -
  have di: "distinct idx" and si: "set idx = {..<length verts_in}"
    using sort_vertices_perm [OF r d] by simp_all
  have a: "\<forall>i<length verts_in. i \<notin> touched edges_in \<longrightarrow> count_list idx i = 1"
    using di si by (simp add: count_list_distinct)
  from r obtain limits0 ec st where
    w: "walk_loop verts_in edges_in (limit_mode \<and> length limits0 > 0)
        (if limit_mode \<and> length limits0 > 0 then tl limits0 else limits0) (length edges_in)
        \<lparr>verts_out = [], edges_out = [], index = [], edges_copy = ec,
         ed_index = (if limit_mode \<and> length limits0 > 0 then snd (snd (hd limits0)) else 0),
         or_side = (if limit_mode \<and> length limits0 > 0 then fst (snd (hd limits0)) else 0)\<rparr> = Inr st"
    and eo: "eo = edges_out st"
    and res: "(vo, idx) = (if length (verts_out st) \<noteq> length verts_in
                  then add_unconnected (zip verts_in [0..<length verts_in]) (verts_out st, index st)
                  else (verts_out st, index st))"
    by (rule sort_vertices_Inr_cases)
  have i1: "walk_inv verts_in (verts_out st) (index st)"
    by (rule walk_loop_inv [OF w]) (simp add: walk_inv_def)
  have i2: "walk_inv2 edges_in st"
    by (rule walk_loop_inv2 [OF w]) (simp add: walk_inv2_def)
  let ?tr = "index st"
  have len: "length ?tr = length (verts_out st)" using i1 by (rule walk_inv_length)
  have t: "set ?tr \<subseteq> touched edges_in" using i2 by (simp add: walk_inv2_def)
  have e: "\<forall>ed\<in>set eo. \<forall>k\<in>set ed. k < length ?tr"
    using i2 by (simp add: walk_inv2_def eo len)
  have s: "idx = ?tr @ filter (\<lambda>i. i \<notin> set ?tr) [0..<length verts_in]"
  proof (cases "length (verts_out st) \<noteq> length verts_in")
    case True
    have "distinct (map fst (zip verts_in [0..<length verts_in]))" using d by simp
    from add_unconnected_distinct [OF this, of "(verts_out st, index st)"] res True
    have "idx = index st @ map snd (filter (\<lambda>q. fst q \<notin> set (verts_out st))
                                      (zip verts_in [0..<length verts_in]))"
      by simp
    then show ?thesis by (simp only: filter_zip_upt [OF i1 d])
  next
    case False
    with res have "idx = index st" by simp
    moreover from this si have "filter (\<lambda>i. i \<notin> set (index st)) [0..<length verts_in] = []"
      by (simp add: filter_empty_conv)
    ultimately show ?thesis by simp
  qed
  from s t e have "\<exists>tr. idx = tr @ filter (\<lambda>i. i \<notin> set tr) [0..<length verts_in]
           \<and> set tr \<subseteq> touched edges_in
           \<and> (\<forall>ed\<in>set eo. \<forall>k\<in>set ed. k < length tr)"
    by blast
  with a show ?thesis by (rule conjI)
qed

theorem isolated_points_appended_witness:
  "distinct [(0, 0, 0), (1, 0, 0), (5, 0, 0), (2, 0, 0), (7, 0, 0) :: vert]
   \<and> sort_vertices_by_connexions [(0, 0, 0), (1, 0, 0), (5, 0, 0), (2, 0, 0), (7, 0, 0) :: vert]
         [(3, 1)] False
       = Inr ([(2, 0, 0), (1, 0, 0), (0, 0, 0), (5, 0, 0), (7, 0, 0)], [[0, 1]], [3, 1, 0, 2, 4])
   \<and> touched [(3, 1)] = {1, 3}
   \<and> count_list [3, 1, 0, 2, 4 :: nat] 0 = 1 \<and> count_list [3, 1, 0, 2, 4 :: nat] 2 = 1
   \<and> count_list [3, 1, 0, 2, 4 :: nat] 4 = 1
   \<and> (\<exists>tr. [3, 1, 0, 2, 4] = tr @ filter (\<lambda>i. i \<notin> set tr) [0..<5]
           \<and> set tr \<subseteq> touched [(3, 1)]
           \<and> (\<forall>ed\<in>set [[0, 1 :: nat]]. \<forall>k\<in>set ed. k < length tr))"
proof -
  let ?v = "[(0, 0, 0), (1, 0, 0), (5, 0, 0), (2, 0, 0), (7, 0, 0)] :: vert list"
  have d: "distinct ?v" by simp
  have r: "sort_vertices_by_connexions ?v [(3, 1)] False
       = Inr ([(2, 0, 0), (1, 0, 0), (0, 0, 0), (5, 0, 0), (7, 0, 0)], [[0, 1]], [3, 1, 0, 2, 4])"
    by (simp add: sort_vertices_by_connexions_def pop_lower_level_def pop_def walk_step_def
        oriented_edge_def nth_err_def visit_side_def find_next_def take_edge_def restart_def
        Let_def upt_rec numeral_3_eq_3 numeral_2_eq_2)
  have t: "touched [(3, 1)] = {1, 3}" by (auto simp: touched_def)
  have c: "count_list [3, 1, 0, 2, 4 :: nat] 0 = 1" "count_list [3, 1, 0, 2, 4 :: nat] 2 = 1"
    "count_list [3, 1, 0, 2, 4 :: nat] 4 = 1" by simp_all
  have l: "length ?v = 5" by simp
  from isolated_points_appended [OF r d]
  have "\<exists>tr. [3, 1, 0, 2, 4] = tr @ filter (\<lambda>i. i \<notin> set tr) [0..<length ?v]
           \<and> set tr \<subseteq> touched [(3, 1)]
           \<and> (\<forall>ed\<in>set [[0, 1 :: nat]]. \<forall>k\<in>set ed. k < length tr)"
    by (rule conjunct2)
  then have e: "\<exists>tr. [3, 1, 0, 2, 4] = tr @ filter (\<lambda>i. i \<notin> set tr) [0..<5]
           \<and> set tr \<subseteq> touched [(3, 1)]
           \<and> (\<forall>ed\<in>set [[0, 1 :: nat]]. \<forall>k\<in>set ed. k < length tr)"
    unfolding l .
  from d r t c e show ?thesis by (intro conjI)
qed

text \<open>The claim as stated fails when a point touched by zero edges has the coordinates of
  another point: point 2 is touched by no edge and has the coordinates of point 0, and it
  does not occur in the output order.\<close>

theorem isolated_point_dropped_counterexample:
  "sort_vertices_by_connexions [(0, 0, 0), (1, 0, 0), (0, 0, 0) :: vert] [(0, 1)] False
     = Inr ([(0, 0, 0), (1, 0, 0)], [[0, 1]], [0, 1])"
  by (simp add: sort_vertices_by_connexions_def pop_lower_level_def pop_def walk_step_def
      oriented_edge_def nth_err_def visit_side_def find_next_def take_edge_def restart_def
      Let_def upt_rec numeral_3_eq_3 numeral_2_eq_2)

section \<open>The item order is a permutation\<close>

lemma is_permutation_mset: "mset order = mset [0..<n] \<Longrightarrow> is_permutation order n"
  unfolding is_permutation_def by (simp add: perm_upt_props)

lemma emit_outputs_order_perm:
  assumes "emit_outputs vert_of last_of po True (PyList (sorted_py K False items)) p = Inr (vs, pe, io)"
    and "map last_of items = [0..<n]"
  shows "\<exists>order. io = Some order \<and> is_permutation order n"
proof -
  from emit_outputs_list_Inr(2) [OF assms(1)]
  have io: "io = Some (map last_of (sort_key K items))" by (simp add: sorted_py_def)
  have "mset (map last_of (sort_key K items)) = mset (map last_of items)" by simp
  then have "mset (map last_of (sort_key K items)) = mset [0..<n]" by (simp only: assms(2))
  then have "is_permutation (map last_of (sort_key K items)) n" by (rule is_permutation_mset)
  with io show ?thesis by blast
qed

lemma lasts_DIST: "map snd (map (\<lambda>(i, v_c). (v_c, i)) (enumerate k v)) = [k..<k + length v]"
  by (induction v arbitrary: k) (auto simp: upt_rec)

lemma lasts_AXIS:
  "map (\<lambda>it. snd (snd it)) (map (\<lambda>(i, v_c). (f v_c, g v_c, i)) (enumerate k v)) = [k..<k + length v]"
  by (induction v arbitrary: k) (auto simp: upt_rec)

lemma lasts_USER:
  "map (\<lambda>it. snd (snd it)) (map (\<lambda>(i, d). (fst d, snd d, i)) (enumerate k zs)) = [k..<k + length zs]"
  by (induction zs arbitrary: k) (auto simp: upt_rec)

text \<open>
  Claim C1, as amended. Whenever the item-order output is produced, it is a permutation of
  the original indices 0, ..., N-1 (every index exactly once)
  \<^item> in the modes XYZ, AXYZ, DIST and AXIS, for every point list;
  \<^item> in the modes ADIR and ACYL with the reverse option off;
  \<^item> in mode USER when the index data has at least N entries;
  \<^item> in the connectivity mode when the points have pairwise different coordinates.
\<close>

theorem item_order_is_permutation:
  "(process_XYZ rx ry rz po True v p = Inr (vs, pe, io)
      \<longrightarrow> (\<exists>order. io = Some order \<and> is_permutation order (length v)))
   \<and> (process_AXYZ matrix rx ry rz po True v p = Inr (vs, pe, io)
      \<longrightarrow> (\<exists>order. io = Some order \<and> is_permutation order (length v)))
   \<and> (process_ADIR direction False po True v p = Inr (vs, pe, io)
      \<longrightarrow> (\<exists>order. io = Some order \<and> is_permutation order (length v)))
   \<and> (process_ACYL cylindrical False po True v p = Inr (vs, pe, io)
      \<longrightarrow> (\<exists>order. io = Some order \<and> is_permutation order (length v)))
   \<and> (process_DIST v_base po True v p = Inr (vs, pe, io)
      \<longrightarrow> (\<exists>order. io = Some order \<and> is_permutation order (length v)))
   \<and> (process_AXIS along angle po True v p = Inr (vs, pe, io)
      \<longrightarrow> (\<exists>order. io = Some order \<and> is_permutation order (length v)))
   \<and> (length v \<le> length index_data \<and> process_USER index_data po True v p = Inr (vs, pe, io)
      \<longrightarrow> (\<exists>order. io = Some order \<and> is_permutation order (length v)))
   \<and> (distinct w \<and> sort_vertices_by_connexions w edges_in limit_mode = Inr (vo, eo, idx)
      \<longrightarrow> is_permutation idx (length w))"
proof -
  let ?C = "\<exists>order. io = Some order \<and> is_permutation order (length v)"
  have xyz: "process_XYZ rx ry rz po True v p = Inr (vs, pe, io) \<longrightarrow> ?C"
  proof
    assume "process_XYZ rx ry rz po True v p = Inr (vs, pe, io)"
    then have "emit_outputs item_vert item_last po True (PyList (sort_XYZ rx ry rz v)) p
        = Inr (vs, pe, io)"
      unfolding process_XYZ_def .
    from emit_outputs_list_Inr(2) [OF this]
    have "io = Some (map item_last (sort_XYZ rx ry rz v))" by simp
    moreover have "is_permutation (map item_last (sort_XYZ rx ry rz v)) (length v)"
      unfolding is_permutation_def using sort_XYZ_lasts sort_XYZ_lasts_distinct by blast
    ultimately show ?C by blast
  qed
  have ev: "map item_last (enumerate_verts v) = [0..<length v]"
    by (rule item_last_enumerate_verts)
  have axyz: "process_AXYZ matrix rx ry rz po True v p = Inr (vs, pe, io) \<longrightarrow> ?C"
    unfolding process_AXYZ_def by (rule impI) (erule emit_outputs_order_perm, rule ev)
  have adir: "process_ADIR direction False po True v p = Inr (vs, pe, io) \<longrightarrow> ?C"
    unfolding process_ADIR_def Let_def if_False
    by (rule impI) (erule emit_outputs_order_perm, rule ev)
  have acyl: "process_ACYL cylindrical False po True v p = Inr (vs, pe, io) \<longrightarrow> ?C"
    unfolding process_ACYL_def Let_def if_False
    by (rule impI) (erule emit_outputs_order_perm, rule ev)
  have ld: "map snd (map (\<lambda>(i, v_c). (v_c, i)) (enumerate 0 v)) = [0..<length v]"
    using lasts_DIST [of 0 v] by simp
  have dist: "process_DIST v_base po True v p = Inr (vs, pe, io) \<longrightarrow> ?C"
    unfolding process_DIST_def
    by (rule impI) (erule emit_outputs_order_perm, rule ld)
  have la: "map (\<lambda>it. snd (snd it)) (map (\<lambda>(i, v_c). (along v_c, angle v_c, i)) (enumerate 0 v))
      = [0..<length v]"
    using lasts_AXIS [of along angle 0 v] by simp
  have axis: "process_AXIS along angle po True v p = Inr (vs, pe, io) \<longrightarrow> ?C"
    unfolding process_AXIS_def
    by (rule impI) (erule emit_outputs_order_perm, rule la)
  have user: "length v \<le> length index_data \<and> process_USER index_data po True v p = Inr (vs, pe, io)
      \<longrightarrow> ?C"
  proof
    assume a: "length v \<le> length index_data \<and> process_USER index_data po True v p = Inr (vs, pe, io)"
    then have l: "length (zip index_data v) = length v" by simp
    have lu: "map (\<lambda>it. snd (snd it)) (map (\<lambda>(i, d). (fst d, snd d, i)) (enumerate 0 (zip index_data v)))
        = [0..<length v]"
      using lasts_USER [of 0 "zip index_data v"] l by simp
    from a have "emit_outputs (\<lambda>it. fst (snd it)) (\<lambda>it. snd (snd it)) po True
       (PyList (sorted_py fst False
          (map (\<lambda>(i, d). (fst d, snd d, i)) (enumerate 0 (zip index_data v))))) p = Inr (vs, pe, io)"
      unfolding process_USER_def by (rule conjunct2)
    then show ?C using lu by (rule emit_outputs_order_perm)
  qed
  have connex: "distinct w \<and> sort_vertices_by_connexions w edges_in limit_mode = Inr (vo, eo, idx)
      \<longrightarrow> is_permutation idx (length w)"
    unfolding is_permutation_def using sort_vertices_perm by blast
  from xyz axyz adir acyl dist axis user connex show ?thesis by (intro conjI)
qed

theorem item_order_is_permutation_witness:
  "process_XYZ False True False False True [(0, 0, 0), (1, 2, 0), (2, 1, 0)] []
     = Inr ([(1, 2, 0), (2, 1, 0), (0, 0, 0)], None, Some [1, 2, 0])
   \<and> is_permutation [1, 2, 0] 3
   \<and> process_AXYZ (\<lambda>w. w) False True False False True [(0, 0, 0), (1, 2, 0), (2, 1, 0)] []
     = Inr ([(0, 0, 0), (1, 2, 0), (2, 1, 0)], None, Some [0, 1, 2])
   \<and> is_permutation [0, 1, 2] 3
   \<and> process_ADIR (0, 1, 0) False False True [(0, 0, 0), (1, 2, 0), (2, 1, 0)] []
     = Inr ([(0, 0, 0), (2, 1, 0), (1, 2, 0)], None, Some [0, 2, 1])
   \<and> is_permutation [0, 2, 1] 3
   \<and> process_ACYL (\<lambda>w. w) False False True [(0, 0, 0), (1, 2, 0), (2, 1, 0)] []
     = Inr ([(0, 0, 0), (2, 1, 0), (1, 2, 0)], None, Some [0, 2, 1])
   \<and> process_DIST (2, 2, 0) False True [(0, 0, 0), (1, 2, 0), (2, 1, 0)] []
     = Inr ([(1, 2, 0), (2, 1, 0), (0, 0, 0)], None, Some [1, 2, 0])
   \<and> process_AXIS (\<lambda>w. fst (snd w)) fst False True [(0, 0, 0), (1, 2, 0), (2, 1, 0)] []
     = Inr ([(0, 0, 0), (2, 1, 0), (1, 2, 0)], None, Some [0, 2, 1])
   \<and> process_USER [3, 1, 2] False True [(0, 0, 0), (1, 2, 0), (2, 1, 0)] []
     = Inr ([(1, 2, 0), (2, 1, 0), (0, 0, 0)], None, Some [1, 2, 0])
   \<and> distinct [(0, 0, 0), (1, 2, 0), (2, 1, 0) :: vert]
   \<and> sort_vertices_by_connexions [(0, 0, 0), (1, 2, 0), (2, 1, 0) :: vert] [(2, 1)] False
     = Inr ([(2, 1, 0), (1, 2, 0), (0, 0, 0)], [[0, 1]], [2, 1, 0])
   \<and> is_permutation [2, 1, 0] 3"
proof -
  let ?v = "[(0, 0, 0), (1, 2, 0), (2, 1, 0)] :: vert list"
  note T = item_order_is_permutation
  have l: "length ?v = 3" by simp
  have xyz: "process_XYZ False True False False True ?v []
     = Inr ([(1, 2, 0), (2, 1, 0), (0, 0, 0)], None, Some [1, 2, 0])"
    by (simp add: process_XYZ_def emit_outputs_def sort_XYZ_def op_order_def sorted_py_def
        enumerate_verts_def)
  have axyz: "process_AXYZ (\<lambda>w. w) False True False False True ?v []
     = Inr ([(0, 0, 0), (1, 2, 0), (2, 1, 0)], None, Some [0, 1, 2])"
    by (simp add: process_AXYZ_def emit_outputs_def key_AXYZ_def sorted_py_def
        enumerate_verts_def less_eq_prod_def)
  have adir: "process_ADIR (0, 1, 0) False False True ?v []
     = Inr ([(0, 0, 0), (2, 1, 0), (1, 2, 0)], None, Some [0, 2, 1])"
    by (simp add: process_ADIR_def emit_outputs_def key_ADIR_def dot_def sorted_py_def
        enumerate_verts_def)
  have acyl: "process_ACYL (\<lambda>w. w) False False True ?v []
     = Inr ([(0, 0, 0), (2, 1, 0), (1, 2, 0)], None, Some [0, 2, 1])"
    by (simp add: process_ACYL_def emit_outputs_def key_ACYL_def sorted_py_def
        enumerate_verts_def less_eq_prod_def)
  have dist: "process_DIST (2, 2, 0) False True ?v []
     = Inr ([(1, 2, 0), (2, 1, 0), (0, 0, 0)], None, Some [1, 2, 0])"
    by (simp add: process_DIST_def emit_outputs_def distK_def sorted_py_def)
  have axis: "process_AXIS (\<lambda>w. fst (snd w)) fst False True ?v []
     = Inr ([(0, 0, 0), (2, 1, 0), (1, 2, 0)], None, Some [0, 2, 1])"
    by (simp add: process_AXIS_def emit_outputs_def sorted_py_def less_eq_prod_def)
  have user: "process_USER [3, 1, 2] False True ?v []
     = Inr ([(1, 2, 0), (2, 1, 0), (0, 0, 0)], None, Some [1, 2, 0])"
    by (simp add: process_USER_def emit_outputs_def sorted_py_def)
  have d: "distinct ?v" by simp
  have connex: "sort_vertices_by_connexions ?v [(2, 1)] False
     = Inr ([(2, 1, 0), (1, 2, 0), (0, 0, 0)], [[0, 1]], [2, 1, 0])"
    by (simp add: sort_vertices_by_connexions_def pop_lower_level_def pop_def walk_step_def
        oriented_edge_def nth_err_def visit_side_def find_next_def take_edge_def restart_def
        Let_def upt_rec numeral_3_eq_3 numeral_2_eq_2)
  have p1: "is_permutation [1, 2, 0] 3"
    using T [where rx = False and ry = True and rz = False and po = False and v = ?v
        and p = "[]" and vs = "[(1, 2, 0), (2, 1, 0), (0, 0, 0)]" and pe = None
        and io = "Some [1, 2, 0]", THEN conjunct1] xyz
    by (simp add: numeral_3_eq_3)
  have p2: "is_permutation [0, 1, 2] 3"
    using T [where matrix = "\<lambda>w. w" and rx = False and ry = True and rz = False and po = False
        and v = ?v and p = "[]" and vs = "[(0, 0, 0), (1, 2, 0), (2, 1, 0)]" and pe = None
        and io = "Some [0, 1, 2]", THEN conjunct2, THEN conjunct1] axyz
    by (simp add: numeral_3_eq_3)
  have p3: "is_permutation [0, 2, 1] 3"
    using T [where direction = "(0, 1, 0)" and po = False
        and v = ?v and p = "[]" and vs = "[(0, 0, 0), (2, 1, 0), (1, 2, 0)]" and pe = None
        and io = "Some [0, 2, 1]", THEN conjunct2, THEN conjunct2, THEN conjunct1] adir
    by (simp add: numeral_3_eq_3)
  have p4: "is_permutation [2, 1, 0] 3"
    using T [where w = ?v and edges_in = "[(2, 1)]" and limit_mode = False
        and vo = "[(2, 1, 0), (1, 2, 0), (0, 0, 0)]" and eo = "[[0, 1]]" and idx = "[2, 1, 0]",
        THEN conjunct2, THEN conjunct2, THEN conjunct2, THEN conjunct2, THEN conjunct2,
        THEN conjunct2, THEN conjunct2] connex d
    by (simp add: numeral_3_eq_3)
  from xyz p1 axyz p2 adir p3 acyl dist axis user d connex p4 show ?thesis by (intro conjI)
qed

text \<open>The claim as stated, for every sort mode and every point list, fails in the
  connectivity mode on two points with the same coordinates joined by an edge: the item
  order is 0 alone.\<close>

theorem item_order_not_permutation_counterexample:
  "sort_vertices_by_connexions [(0, 0, 0), (0, 0, 0) :: vert] [(0, 1)] False
     = Inr ([(0, 0, 0)], [[0, 0]], [0])
   \<and> \<not> is_permutation [0] (length [(0, 0, 0), (0, 0, 0) :: vert])"
proof -
  have "sort_vertices_by_connexions [(0, 0, 0), (0, 0, 0) :: vert] [(0, 1)] False
     = Inr ([(0, 0, 0)], [[0, 0]], [0])"
    by (simp add: sort_vertices_by_connexions_def pop_lower_level_def pop_def walk_step_def
        oriented_edge_def nth_err_def visit_side_def find_next_def take_edge_def restart_def
        Let_def upt_rec)
  moreover have "\<not> is_permutation [0] (length [(0, 0, 0), (0, 0, 0) :: vert])"
    by (auto simp: is_permutation_def)
  ultimately show ?thesis by (rule conjI)
qed

section \<open>The walk returns\<close>

text \<open>When the edge list is not empty and every end of an edge is an index of the point
  list, the connectivity sort raises no exception: every \<open>pop\<close>, every lookup by position and
  every \<open>verts_out.index\<close> of the walk succeeds. With limit detection this is shown for points
  with pairwise different coordinates.\<close>

lemma pop_map: "pop (map f xs) k = (case pop xs k of Inl e \<Rightarrow> Inl e | Inr ys \<Rightarrow> Inr (map f ys))"
  by (simp add: pop_def take_map drop_map)

lemma pop_remaining:
  assumes "k < length ei"
  shows "pop_lower_level (remaining edges_in ei) k
           = Inr (remaining edges_in (take k ei @ drop (Suc k) ei))"
  using assms by (simp add: pop_lower_level_def remaining_def pop_def take_map drop_map)

lemma removed_props:
  assumes "distinct ei" and "k < length ei"
  shows "distinct (take k ei @ drop (Suc k) ei)"
    and "set (take k ei @ drop (Suc k) ei) = set ei - {ei ! k}"
proof -
  from assms(2) have ei: "ei = take k ei @ ei ! k # drop (Suc k) ei"
    by (rule id_take_nth_drop)
  with assms(1) have d: "distinct (take k ei @ ei ! k # drop (Suc k) ei)" by simp
  then show "distinct (take k ei @ drop (Suc k) ei)" by simp
  from d have "ei ! k \<notin> set (take k ei @ drop (Suc k) ei)" by simp
  moreover have "set ei = insert (ei ! k) (set (take k ei @ drop (Suc k) ei))"
    by (subst ei) simp
  ultimately show "set (take k ei @ drop (Suc k) ei) = set ei - {ei ! k}" by auto
qed

lemma take_edge_remaining:
  assumes "k < length ei"
  shows "take_edge (remaining edges_in ei) k side st
           = Inr (st\<lparr>ed_index := ei ! k, or_side := side,
                    edges_copy := remaining edges_in (take k ei @ drop (Suc k) ei)\<rparr>)"
  using assms pop_remaining [OF assms, of edges_in]
  by (simp add: take_edge_def nth_err_def remaining_def)

lemma visit_side_total:
  assumes "side < length verts_in"
  shows "\<exists>st' ed'. visit_side verts_in (st, ed) side = Inr (st', ed')"
proof (cases "verts_in ! side \<in> set (verts_out st)")
  case True
  then obtain k where "list_index (verts_out st) (verts_in ! side) = Inr k"
    by (blast dest: list_index_mem)
  with True assms show ?thesis by (simp add: visit_side_def nth_err_def)
next
  case False
  have "verts_in ! side \<in> set (verts_out st @ [verts_in ! side])" by simp
  then obtain k where "list_index (verts_out st @ [verts_in ! side]) (verts_in ! side) = Inr k"
    by (blast dest: list_index_mem)
  with False assms show ?thesis by (simp add: visit_side_def nth_err_def)
qed

lemma visit_side_index_mono:
  assumes "visit_side verts_in (st, ed) side = Inr (st', ed')"
  shows "set (index st) \<subseteq> set (index st')"
  using visit_side_Inr(2) [OF assms] visit_side_Inr(3) [OF assms]
  by (cases "verts_in ! side \<in> set (verts_out st)") auto

lemma walk_inv_set: "walk_inv verts_in vo idx \<Longrightarrow> set vo = (\<lambda>i. verts_in ! i) ` set idx"
  unfolding walk_inv_def by (metis set_map)

lemma visit_side_records:
  assumes "visit_side verts_in (st, ed) side = Inr (st', ed')"
    and "walk_inv verts_in (verts_out st) (index st)" and "distinct verts_in"
  shows "side \<in> set (index st')"
proof (cases "verts_in ! side \<in> set (verts_out st)")
  case True
  with walk_inv_set [OF assms(2)] obtain j where
    j: "j \<in> set (index st)" "verts_in ! j = verts_in ! side"
    by auto
  with assms(2) have "j < length verts_in" by (simp add: walk_inv_def)
  with j(2) visit_side_Inr(1) [OF assms(1)] assms(3) have "j = side"
    by (metis nth_eq_iff_index_eq)
  with j(1) visit_side_index_mono [OF assms(1)] show ?thesis by auto
next
  case False
  from visit_side_Inr(3) [OF assms(1) False] show ?thesis by simp
qed

lemma find_next_remaining:
  assumes "edges_copy st = remaining edges_in ei"
  shows "(\<exists>k s. k < length ei \<and>
            find_next v st = Inr (st\<lparr>ed_index := ei ! k, or_side := s,
               edges_copy := remaining edges_in (take k ei @ drop (Suc k) ei)\<rparr>))
         \<or> find_next v st = Inr st"
proof -
  let ?e0 = "map (\<lambda>j. fst (edges_in ! j)) ei" and ?e1 = "map (\<lambda>j. snd (edges_in ! j)) ei"
  have ec: "edges_copy st = (?e0, ?e1, ei)" using assms by (simp add: remaining_def)
  show ?thesis
  proof (cases "v \<in> set ?e0")
    case True
    then obtain k where k: "list_index ?e0 v = Inr k" "k < length ?e0"
      by (blast dest: list_index_mem)
    then have kl: "k < length ei" by simp
    from True k(1) ec have "find_next v st = take_edge (remaining edges_in ei) k 0 st"
      by (simp add: find_next_def remaining_def)
    with take_edge_remaining [OF kl] kl show ?thesis by metis
  next
    case False
    show ?thesis
    proof (cases "v \<in> set ?e1")
      case True
      then obtain k where k: "list_index ?e1 v = Inr k" "k < length ?e1"
        by (blast dest: list_index_mem)
      then have kl: "k < length ei" by simp
      from False True k(1) ec have "find_next v st = take_edge (remaining edges_in ei) k 1 st"
        by (simp add: find_next_def remaining_def)
      with take_edge_remaining [OF kl] kl show ?thesis by metis
    next
      case F1: False
      with False ec have "find_next v st = Inr st" by (simp add: find_next_def)
      then show ?thesis by simp
    qed
  qed
qed

lemma restart_plain_remaining:
  assumes "edges_copy st = remaining edges_in ei"
  shows "restart False limits old st =
           (if ed_index st = old \<and> ei \<noteq> []
            then Inr (st\<lparr>ed_index := ei ! 0, or_side := 0,
                        edges_copy := remaining edges_in (take 0 ei @ drop (Suc 0) ei)\<rparr>)
            else Inr st)"
proof (cases "ed_index st = old \<and> ei \<noteq> []")
  case True
  then have l: "0 < length ei" by simp
  from True assms have "restart False limits old st = take_edge (remaining edges_in ei) 0 0 st"
    by (simp add: restart_def remaining_def)
  with take_edge_remaining [OF l] True show ?thesis by simp
next
  case False
  with assms show ?thesis by (auto simp: restart_def remaining_def)
qed

lemma restart_limit_remaining:
  assumes ec: "edges_copy st = remaining edges_in ei"
    and f: "find (\<lambda>l. fst l \<notin> set (index st)) limits = Some l"
    and k: "k < length ei"
    and e: "fst (edges_in ! (ei ! k)) = fst l \<or> snd (edges_in ! (ei ! k)) = fst l"
    and c: "ed_index st = old" "ei \<noteq> []"
  shows "\<exists>k'. k' < length ei
           \<and> (fst (edges_in ! (ei ! k')) = fst l \<or> snd (edges_in ! (ei ! k')) = fst l)
           \<and> restart True limits old st =
               Inr (st\<lparr>ed_index := snd (snd l), or_side := fst (snd l),
                       edges_copy := remaining edges_in (take k' ei @ drop (Suc k') ei)\<rparr>)"
proof -
  let ?e0 = "map (\<lambda>j. fst (edges_in ! j)) ei" and ?e1 = "map (\<lambda>j. snd (edges_in ! j)) ei"
  have ecs: "edges_copy st = (?e0, ?e1, ei)" using ec by (simp add: remaining_def)
  let ?pos = "if fst l \<in> set ?e0 then list_index ?e0 (fst l) else list_index ?e1 (fst l)"
  have "fst l \<in> set ?e0 \<or> fst l \<in> set ?e1"
  proof -
    from k have "ei ! k \<in> set ei" by simp
    with e show ?thesis by (metis (mono_tags, lifting) image_eqI set_map)
  qed
  then obtain k' where k': "?pos = Inr k'" "k' < length ei"
    "fst (edges_in ! (ei ! k')) = fst l \<or> snd (edges_in ! (ei ! k')) = fst l"
  proof (cases "fst l \<in> set ?e0")
    case True
    then obtain q where "list_index ?e0 (fst l) = Inr q" "q < length ?e0" "?e0 ! q = fst l"
      by (blast dest: list_index_mem)
    with True that show ?thesis by simp
  next
    case False
    assume "fst l \<in> set ?e0 \<or> fst l \<in> set ?e1"
    with False have "fst l \<in> set ?e1" by simp
    then obtain q where "list_index ?e1 (fst l) = Inr q" "q < length ?e1" "?e1 ! q = fst l"
      by (blast dest: list_index_mem)
    with False that show ?thesis by simp
  qed
  from c ecs f k'(1) pop_remaining [OF k'(2), of edges_in]
  have "restart True limits old st =
               Inr (st\<lparr>ed_index := snd (snd l), or_side := fst (snd l),
                       edges_copy := remaining edges_in (take k' ei @ drop (Suc k') ei)\<rparr>)"
    by (simp add: restart_def remaining_def)
  with k'(2,3) show ?thesis by blast
qed

lemma restart_limit_none:
  assumes "find (\<lambda>l. fst l \<notin> set (index st)) limits = None"
  shows "restart True limits old st = Inr st"
  using assms by (cases "edges_copy st") (auto simp: restart_def)

lemma restart_skip:
  assumes "ed_index st \<noteq> old \<or> fst (edges_copy st) = []"
  shows "restart limiting limits old st = Inr st"
  using assms by (cases "edges_copy st") (auto simp: restart_def)

lemma edges_invI:
  assumes "edges_copy st = remaining edges_in ei" and "distinct ei"
    and "set ei \<subseteq> {..<length edges_in}"
    and "ed_index st < length edges_in" and "ed_index st \<notin> set ei"
    and "\<And>j. limiting \<Longrightarrow> j < length edges_in \<Longrightarrow> j \<notin> set ei \<Longrightarrow> j \<noteq> ed_index st \<Longrightarrow>
           fst (edges_in ! j) \<in> set (index st) \<and> snd (edges_in ! j) \<in> set (index st)"
  shows "edges_inv edges_in limiting st"
  unfolding edges_inv_def using assms by blast

lemma walk_step_total:
  assumes r: "in_range verts_in edges_in"
    and wi: "walk_inv verts_in (verts_out st) (index st)"
    and ei: "edges_inv edges_in limiting st"
    and lim: "limiting \<longrightarrow> distinct verts_in \<and> limits_ok edges_in limits"
  shows "\<exists>st'. walk_step verts_in edges_in limiting limits st = Inr st'
           \<and> edges_inv edges_in limiting st'"
proof -
  let ?E = "length edges_in"
  from ei obtain eis where ec: "edges_copy st = remaining edges_in eis"
    and d: "distinct eis" and sub: "set eis \<subseteq> {..<?E}"
    and cur: "ed_index st < ?E" and cn: "ed_index st \<notin> set eis"
    and cl: "limiting \<longrightarrow> (\<forall>j<?E. j \<notin> set eis \<and> j \<noteq> ed_index st \<longrightarrow>
               fst (edges_in ! j) \<in> set (index st) \<and> snd (edges_in ! j) \<in> set (index st))"
    unfolding edges_inv_def by blast
  let ?c = "edges_in ! ed_index st"
  define e where "e = (if or_side st = 1 then (snd ?c, fst ?c) else ?c)"
  have o: "oriented_edge edges_in (ed_index st) (or_side st) = Inr e"
    using cur by (simp add: oriented_edge_def nth_err_def e_def)
  from cur have "?c \<in> set edges_in" by simp
  with r have cr: "fst ?c < length verts_in" "snd ?c < length verts_in"
    by (simp_all add: in_range_def)
  then have er: "fst e < length verts_in" "snd e < length verts_in"
    by (simp_all add: e_def)
  have ends: "(fst ?c = fst e \<and> snd ?c = snd e) \<or> (fst ?c = snd e \<and> snd ?c = fst e)"
    by (simp add: e_def)
  from visit_side_total [OF er(1)] obtain st1 ed1 where
    v1: "visit_side verts_in (st, []) (fst e) = Inr (st1, ed1)" by blast
  from visit_side_total [OF er(2)] obtain st2 ed where
    v2: "visit_side verts_in (st1, ed1) (snd e) = Inr (st2, ed)" by blast
  have fr: "edges_copy st2 = edges_copy st" "ed_index st2 = ed_index st"
    using visit_side_frame [OF v1] visit_side_frame [OF v2] by simp_all
  have m1: "set (index st) \<subseteq> set (index st1)" using v1 by (rule visit_side_index_mono)
  have m2: "set (index st1) \<subseteq> set (index st2)" using v2 by (rule visit_side_index_mono)
  have wi1: "walk_inv verts_in (verts_out st1) (index st1)" using v1 wi by (rule visit_side_inv)
  let ?st3 = "st2\<lparr>edges_out := edges_out st2 @ [ed]\<rparr>"
  have ec3: "edges_copy ?st3 = remaining edges_in eis" using fr ec by simp
  have step: "walk_step verts_in edges_in limiting limits st =
      (case find_next (snd e) ?st3 of Inl err \<Rightarrow> Inl err
       | Inr st4 \<Rightarrow> restart limiting limits (ed_index st) st4)"
    by (simp add: walk_step_def o v1 v2)
  have base: "fst (edges_in ! j) \<in> set (index st2) \<and> snd (edges_in ! j) \<in> set (index st2)"
    if "limiting" "j < ?E" "j \<notin> set eis" for j
  proof (cases "j = ed_index st")
    case True
    from that(1) lim have dv: "distinct verts_in" by simp
    have "fst e \<in> set (index st1)" using v1 wi dv by (rule visit_side_records)
    with m2 have a: "fst e \<in> set (index st2)" by blast
    have b: "snd e \<in> set (index st2)" using v2 wi1 dv by (rule visit_side_records)
    from a b ends True show ?thesis by auto
  next
    case False
    with that cl have "fst (edges_in ! j) \<in> set (index st) \<and> snd (edges_in ! j) \<in> set (index st)"
      by blast
    with m1 m2 show ?thesis by blast
  qed
  have same: "edges_inv edges_in limiting ?st3"
  proof (rule edges_invI [where ei = eis])
    show "edges_copy ?st3 = remaining edges_in eis" by (rule ec3)
    show "distinct eis" by (rule d)
    show "set eis \<subseteq> {..<?E}" by (rule sub)
    show "ed_index ?st3 < ?E" using fr cur by simp
    show "ed_index ?st3 \<notin> set eis" using fr cn by simp
    show "fst (edges_in ! j) \<in> set (index ?st3) \<and> snd (edges_in ! j) \<in> set (index ?st3)"
      if "limiting" "j < ?E" "j \<notin> set eis" "j \<noteq> ed_index ?st3" for j
      using base [OF that(1,2,3)] by simp
  qed
  have moved: "edges_inv edges_in limiting
                 (?st3\<lparr>ed_index := eis ! k, or_side := s,
                        edges_copy := remaining edges_in (take k eis @ drop (Suc k) eis)\<rparr>)"
    (is "edges_inv _ _ ?st4")
    if k: "k < length eis" for k s
  proof (rule edges_invI [where ei = "take k eis @ drop (Suc k) eis"])
    let ?ei' = "take k eis @ drop (Suc k) eis"
    have se: "set ?ei' = set eis - {eis ! k}" using d k by (rule removed_props(2))
    show "edges_copy ?st4 = remaining edges_in ?ei'" by simp
    show "distinct ?ei'" using d k by (rule removed_props(1))
    show "set ?ei' \<subseteq> {..<?E}" using se sub by blast
    from k have "eis ! k \<in> set eis" by simp
    with sub show "ed_index ?st4 < ?E" by auto
    show "ed_index ?st4 \<notin> set ?ei'" using se by simp
    show "fst (edges_in ! j) \<in> set (index ?st4) \<and> snd (edges_in ! j) \<in> set (index ?st4)"
      if "limiting" "j < ?E" "j \<notin> set ?ei'" "j \<noteq> ed_index ?st4" for j
    proof -
      from that(3,4) se have "j \<notin> set eis" by auto
      from base [OF that(1,2) this] show ?thesis by simp
    qed
  qed
  from find_next_remaining [OF ec3, of "snd e"]
  consider (found) k s where "k < length eis"
      "find_next (snd e) ?st3 = Inr (?st3\<lparr>ed_index := eis ! k, or_side := s,
               edges_copy := remaining edges_in (take k eis @ drop (Suc k) eis)\<rparr>)"
    | (none) "find_next (snd e) ?st3 = Inr ?st3"
    by blast
  then show ?thesis
  proof cases
    case found
    let ?st4 = "?st3\<lparr>ed_index := eis ! k, or_side := s,
               edges_copy := remaining edges_in (take k eis @ drop (Suc k) eis)\<rparr>"
    from found(1) have "eis ! k \<in> set eis" by simp
    with cn have "ed_index ?st4 \<noteq> ed_index st" by auto
    then have "restart limiting limits (ed_index st) ?st4 = Inr ?st4"
      by (intro restart_skip) simp
    with step found(2) have "walk_step verts_in edges_in limiting limits st = Inr ?st4" by simp
    with moved [OF found(1)] show ?thesis by blast
  next
    case none
    have step': "walk_step verts_in edges_in limiting limits st
                   = restart limiting limits (ed_index st) ?st3"
      using step none by simp
    show ?thesis
    proof (cases "eis = []")
      case True
      with ec3 have "fst (edges_copy ?st3) = []" by (simp add: remaining_def)
      then have "restart limiting limits (ed_index st) ?st3 = Inr ?st3"
        by (intro restart_skip) simp
      with step' same show ?thesis by simp
    next
      case False
      show ?thesis
      proof (cases limiting)
        case nl: False
        from False have l0: "0 < length eis" by simp
        from restart_plain_remaining [OF ec3, of limits "ed_index st"] False fr
        have "restart False limits (ed_index st) ?st3 =
                Inr (?st3\<lparr>ed_index := eis ! 0, or_side := 0,
                        edges_copy := remaining edges_in (take 0 eis @ drop (Suc 0) eis)\<rparr>)"
          by simp
        with step' nl moved [OF l0, of 0] show ?thesis by simp
      next
        case lg: True
        with lim have dv: "distinct verts_in" and lo: "limits_ok edges_in limits" by simp_all
        show ?thesis
        proof (cases "find (\<lambda>l. fst l \<notin> set (index ?st3)) limits")
          case None
          then have "restart True limits (ed_index st) ?st3 = Inr ?st3"
            by (rule restart_limit_none)
          with step' lg same show ?thesis by simp
        next
          case (Some l)
          then have lin: "l \<in> set limits" and lnv: "fst l \<notin> set (index ?st3)"
            by (auto simp: find_Some_iff)
          let ?k0 = "snd (snd l)"
          from lo lin have k0: "?k0 < ?E"
            and k0e: "fst (edges_in ! ?k0) = fst l \<or> snd (edges_in ! ?k0) = fst l"
            and uniq: "\<forall>j<?E. fst (edges_in ! j) = fst l \<or> snd (edges_in ! j) = fst l \<longrightarrow> j = ?k0"
            unfolding limits_ok_def by blast+
          have "?k0 \<in> set eis"
          proof (rule ccontr)
            assume "?k0 \<notin> set eis"
            from base [OF lg k0 this] k0e lnv show False by auto
          qed
          then obtain k where k: "k < length eis" "eis ! k = ?k0"
            by (auto simp: in_set_conv_nth)
          with k0e have ke: "fst (edges_in ! (eis ! k)) = fst l \<or> snd (edges_in ! (eis ! k)) = fst l"
            by simp
          from restart_limit_remaining [OF ec3 Some k(1) ke _ False, of "ed_index st"] fr
          obtain k' where k': "k' < length eis"
            "fst (edges_in ! (eis ! k')) = fst l \<or> snd (edges_in ! (eis ! k')) = fst l"
            "restart True limits (ed_index st) ?st3 =
               Inr (?st3\<lparr>ed_index := ?k0, or_side := fst (snd l),
                       edges_copy := remaining edges_in (take k' eis @ drop (Suc k') eis)\<rparr>)"
            by auto
          from k'(1) have "eis ! k' \<in> set eis" by simp
          with sub have "eis ! k' < ?E" by auto
          with uniq k'(2) have "eis ! k' = ?k0" by blast
          with k'(3) have "restart True limits (ed_index st) ?st3 =
               Inr (?st3\<lparr>ed_index := eis ! k', or_side := fst (snd l),
                       edges_copy := remaining edges_in (take k' eis @ drop (Suc k') eis)\<rparr>)"
            by simp
          with step' lg moved [OF k'(1), of "fst (snd l)"] show ?thesis by simp
        qed
      qed
    qed
  qed
qed

lemma walk_loop_total:
  assumes r: "in_range verts_in edges_in"
    and wi: "walk_inv verts_in (verts_out st) (index st)"
    and ei: "edges_inv edges_in limiting st"
    and lim: "limiting \<longrightarrow> distinct verts_in \<and> limits_ok edges_in limits"
  shows "\<exists>st'. walk_loop verts_in edges_in limiting limits n st = Inr st'"
  using wi ei
proof (induction n arbitrary: st)
  case 0
  then show ?case by simp
next
  case (Suc n)
  from walk_step_total [OF r Suc.prems(1) Suc.prems(2) lim]
  obtain st1 where s: "walk_step verts_in edges_in limiting limits st = Inr st1"
    and e1: "edges_inv edges_in limiting st1" by blast
  from walk_step_inv [OF s Suc.prems(1)] have "walk_inv verts_in (verts_out st1) (index st1)" .
  from Suc.IH [OF this e1] s show ?case by simp
qed

lemma incidences_Nil [simp]: "incidences q [] = 0"
  by (simp add: incidences_def)

lemma incidences_Cons:
  "incidences q (e # es) =
     (if fst e = q then 1 else 0) + (if snd e = q then 1 else 0) + incidences q es"
  by (simp add: incidences_def)

lemma incidences_pos:
  assumes "m < length es" and "fst (es ! m) = q \<or> snd (es ! m) = q"
  shows "1 \<le> incidences q es"
  using assms
proof (induction es arbitrary: m)
  case Nil
  then show ?case by simp
next
  case (Cons e es)
  show ?case
  proof (cases m)
    case 0
    with Cons.prems show ?thesis by (auto simp: incidences_Cons)
  next
    case (Suc m')
    with Cons.prems Cons.IH [of m'] show ?thesis by (simp add: incidences_Cons)
  qed
qed

lemma incidences_two:
  assumes "j < length es" and "m < length es" and "j \<noteq> m"
    and "fst (es ! j) = q \<or> snd (es ! j) = q" and "fst (es ! m) = q \<or> snd (es ! m) = q"
  shows "2 \<le> incidences q es"
  using assms
proof (induction es arbitrary: j m)
  case Nil
  then show ?case by simp
next
  case (Cons e es)
  show ?case
  proof (cases j)
    case 0
    with Cons.prems obtain m' where m': "m = Suc m'" by (cases m) auto
    with Cons.prems have "1 \<le> incidences q es" by (intro incidences_pos [of m']) auto
    moreover from 0 Cons.prems have "fst e = q \<or> snd e = q" by simp
    ultimately show ?thesis by (auto simp: incidences_Cons)
  next
    case (Suc j')
    show ?thesis
    proof (cases m)
      case 0
      from Suc Cons.prems have "1 \<le> incidences q es" by (intro incidences_pos [of j']) auto
      moreover from 0 Cons.prems have "fst e = q \<or> snd e = q" by simp
      ultimately show ?thesis by (auto simp: incidences_Cons)
    next
      case m: (Suc m')
      with Suc Cons.prems Cons.IH [of j' m'] show ?thesis by (simp add: incidences_Cons)
    qed
  qed
qed

lemma count_end_Inr:
  "q < length vc \<Longrightarrow> count_end vc q side i = Inr (vc[q := (fst (vc ! q) + 1, side, i)])"
  by (simp add: count_end_def)

lemma count_edges_spec:
  assumes "\<forall>e\<in>set es. fst e < length vc \<and> snd e < length vc"
  shows "\<exists>vc'. count_edges vc i es = Inr vc' \<and> length vc' = length vc
           \<and> (\<forall>q<length vc. fst (vc' ! q) = fst (vc ! q) + incidences q es)
           \<and> (\<forall>q<length vc. incidences q es = 0 \<longrightarrow> vc' ! q = vc ! q)
           \<and> (\<forall>q<length vc. 0 < incidences q es \<longrightarrow>
                 (\<exists>m<length es. snd (snd (vc' ! q)) = i + m
                    \<and> (fst (es ! m) = q \<or> snd (es ! m) = q)
                    \<and> fst (snd (vc' ! q)) = (if snd (es ! m) = q then 1 else 0)))"
  using assms
proof (induction es arbitrary: vc i)
  case Nil
  then show ?case by simp
next
  case (Cons e es)
  let ?c1 = "vc[fst e := (fst (vc ! fst e) + 1, 0, i)]"
  let ?c2 = "?c1[snd e := (fst (?c1 ! snd e) + 1, 1, i)]"
  from Cons.prems have fe: "fst e < length vc" and se: "snd e < length vc"
    and rest: "\<forall>e\<in>set es. fst e < length ?c2 \<and> snd e < length ?c2"
    by simp_all
  from Cons.IH [OF rest, of "Suc i"] obtain vc' where
    r: "count_edges ?c2 (Suc i) es = Inr vc'" and l: "length vc' = length vc"
    and cnt: "\<forall>q<length vc. fst (vc' ! q) = fst (?c2 ! q) + incidences q es"
    and same: "\<forall>q<length vc. incidences q es = 0 \<longrightarrow> vc' ! q = ?c2 ! q"
    and last: "\<forall>q<length vc. 0 < incidences q es \<longrightarrow>
                 (\<exists>m<length es. snd (snd (vc' ! q)) = Suc i + m
                    \<and> (fst (es ! m) = q \<or> snd (es ! m) = q)
                    \<and> fst (snd (vc' ! q)) = (if snd (es ! m) = q then 1 else 0))"
    by auto
  have run: "count_edges vc i (e # es) = Inr vc'"
    using fe se r by (simp add: count_end_Inr)
  have c2: "fst (?c2 ! q) = fst (vc ! q) + (if fst e = q then 1 else 0) + (if snd e = q then 1 else 0)"
    if "q < length vc" for q
    using that fe se by (auto simp: nth_list_update)
  have c2same: "?c2 ! q = vc ! q" if "q < length vc" "fst e \<noteq> q" "snd e \<noteq> q" for q
    using that by (simp add: nth_list_update)
  have c2last: "snd (snd (?c2 ! q)) = i" if "q < length vc" "fst e = q \<or> snd e = q" for q
    using that fe se by (auto simp: nth_list_update)
  have c2side: "fst (snd (?c2 ! q)) = (if snd e = q then 1 else 0)"
    if "q < length vc" "fst e = q \<or> snd e = q" for q
    using that fe se by (auto simp: nth_list_update)
  have A: "\<forall>q<length vc. fst (vc' ! q) = fst (vc ! q) + incidences q (e # es)"
    using cnt c2 by (simp add: incidences_Cons)
  have B: "\<forall>q<length vc. incidences q (e # es) = 0 \<longrightarrow> vc' ! q = vc ! q"
  proof (intro allI impI)
    fix q assume q: "q < length vc" and z: "incidences q (e # es) = 0"
    then have "incidences q es = 0" "fst e \<noteq> q" "snd e \<noteq> q"
      by (auto simp: incidences_Cons split: if_splits)
    with same c2same q show "vc' ! q = vc ! q" by simp
  qed
  have C: "\<forall>q<length vc. 0 < incidences q (e # es) \<longrightarrow>
                 (\<exists>m<length (e # es). snd (snd (vc' ! q)) = i + m
                    \<and> (fst ((e # es) ! m) = q \<or> snd ((e # es) ! m) = q)
                    \<and> fst (snd (vc' ! q)) = (if snd ((e # es) ! m) = q then 1 else 0))"
  proof (intro allI impI)
    fix q assume q: "q < length vc" and p: "0 < incidences q (e # es)"
    show "\<exists>m<length (e # es). snd (snd (vc' ! q)) = i + m
                    \<and> (fst ((e # es) ! m) = q \<or> snd ((e # es) ! m) = q)
                    \<and> fst (snd (vc' ! q)) = (if snd ((e # es) ! m) = q then 1 else 0)"
    proof (cases "0 < incidences q es")
      case True
      with last q obtain m where "m < length es" "snd (snd (vc' ! q)) = Suc i + m"
        "fst (es ! m) = q \<or> snd (es ! m) = q"
        "fst (snd (vc' ! q)) = (if snd (es ! m) = q then 1 else 0)" by blast
      then have "Suc m < length (e # es) \<and> snd (snd (vc' ! q)) = i + Suc m
           \<and> (fst ((e # es) ! Suc m) = q \<or> snd ((e # es) ! Suc m) = q)
           \<and> fst (snd (vc' ! q)) = (if snd ((e # es) ! Suc m) = q then 1 else 0)" by simp
      then show ?thesis by blast
    next
      case False
      then have z: "incidences q es = 0" by simp
      with p have inc: "fst e = q \<or> snd e = q"
        by (auto simp: incidences_Cons split: if_splits)
      from z same q have "vc' ! q = ?c2 ! q" by simp
      with c2last [OF q inc] c2side [OF q inc]
      have "snd (snd (vc' ! q)) = i + 0" "fst (snd (vc' ! q)) = (if snd e = q then 1 else 0)"
        by simp_all
      with inc have "0 < length (e # es) \<and> snd (snd (vc' ! q)) = i + 0
           \<and> (fst ((e # es) ! 0) = q \<or> snd ((e # es) ! 0) = q)
           \<and> fst (snd (vc' ! q)) = (if snd ((e # es) ! 0) = q then 1 else 0)" by simp
      then show ?thesis by blast
    qed
  qed
  from run l A B C show ?case by blast
qed

lemma find_limits_total:
  assumes "in_range verts_in edges_in"
  shows "\<exists>limits0. find_limits verts_in edges_in = Inr limits0 \<and> limits_ok edges_in limits0"
proof -
  let ?vc = "replicate (length verts_in) (0 :: nat, 0 :: nat, 0 :: nat)"
  from assms have "\<forall>e\<in>set edges_in. fst e < length ?vc \<and> snd e < length ?vc"
    by (simp add: in_range_def)
  from count_edges_spec [OF this, of 0] obtain vc' where
    r: "count_edges ?vc 0 edges_in = Inr vc'" and l0: "length vc' = length ?vc"
    and cnt0: "\<forall>q<length ?vc. fst (vc' ! q) = fst (?vc ! q) + incidences q edges_in"
    and last0: "\<forall>q<length ?vc. 0 < incidences q edges_in \<longrightarrow>
                 (\<exists>m<length edges_in. snd (snd (vc' ! q)) = 0 + m
                    \<and> (fst (edges_in ! m) = q \<or> snd (edges_in ! m) = q)
                    \<and> fst (snd (vc' ! q)) = (if snd (edges_in ! m) = q then 1 else 0))"
    by blast
  have l: "length vc' = length verts_in" using l0 by simp
  have cnt: "fst (vc' ! q) = incidences q edges_in" if "q < length verts_in" for q
    using cnt0 that by simp
  have last: "\<exists>m<length edges_in. snd (snd (vc' ! q)) = m
                    \<and> (fst (edges_in ! m) = q \<or> snd (edges_in ! m) = q)
                    \<and> fst (snd (vc' ! q)) = (if snd (edges_in ! m) = q then 1 else 0)"
    if "q < length verts_in" "0 < incidences q edges_in" for q
    using last0 that by simp
  let ?limits0 = "map (\<lambda>(i, c). (i, snd c)) (filter (\<lambda>(i, c). fst c = 1) (enumerate 0 vc'))"
  have fl: "find_limits verts_in edges_in = Inr ?limits0"
    using r by (simp add: find_limits_def)
  have "limits_ok edges_in ?limits0"
    unfolding limits_ok_def
  proof
    fix l assume "l \<in> set ?limits0"
    then have "l \<in> (\<lambda>p. (fst p, snd (snd p))) ` {p \<in> set (enumerate 0 vc'). fst (snd p) = 1}"
      unfolding set_map set_filter case_prod_beta .
    then obtain p where p: "p \<in> set (enumerate 0 vc')" "fst (snd p) = 1"
      "l = (fst p, snd (snd p))" by blast
    from p(1) have "fst p < length vc'" "vc' ! fst p = snd p"
      by (simp_all add: in_set_enumerate_eq)
    with p(2,3) obtain q where q: "q < length vc'" "fst (vc' ! q) = 1" "l = (q, snd (vc' ! q))"
      by simp
    from q(1) l have ql: "q < length verts_in" by simp
    from cnt [OF ql] q(2) have one: "incidences q edges_in = 1" by simp
    then have "0 < incidences q edges_in" by simp
    from last [OF ql this] obtain m where m: "m < length edges_in" "snd (snd (vc' ! q)) = m"
      "fst (edges_in ! m) = q \<or> snd (edges_in ! m) = q"
      "fst (snd (vc' ! q)) = (if snd (edges_in ! m) = q then 1 else 0)" by blast
    have u: "j = m" if "j < length edges_in" "fst (edges_in ! j) = q \<or> snd (edges_in ! j) = q" for j
    proof (rule ccontr)
      assume "j \<noteq> m"
      from incidences_two [OF that(1) m(1) this that(2) m(3)] one show False by simp
    qed
    have 1: "snd (snd l) < length edges_in" using q(3) m(1,2) by simp
    have 2: "fst (edges_in ! snd (snd l)) = fst l \<or> snd (edges_in ! snd (snd l)) = fst l"
      using q(3) m(2,3) by simp
    have 3: "\<forall>j<length edges_in. fst (edges_in ! j) = fst l \<or> snd (edges_in ! j) = fst l
              \<longrightarrow> j = snd (snd l)"
      using q(3) m(2) u by simp
    have 4: "fst (snd l) = 0 \<and> fst (edges_in ! snd (snd l)) = fst l
             \<or> fst (snd l) = 1 \<and> snd (edges_in ! snd (snd l)) = fst l"
    proof (cases "snd (edges_in ! m) = q")
      case True
      with m(4) have "fst (snd (vc' ! q)) = 1" by simp
      with True q(3) m(2) show ?thesis by simp
    next
      case False
      with m(4) have "fst (snd (vc' ! q)) = 0" by simp
      with False m(3) q(3) m(2) show ?thesis by simp
    qed
    from 1 2 3 4 show "snd (snd l) < length edges_in
        \<and> (fst (edges_in ! snd (snd l)) = fst l \<or> snd (edges_in ! snd (snd l)) = fst l)
        \<and> (\<forall>j<length edges_in. fst (edges_in ! j) = fst l \<or> snd (edges_in ! j) = fst l
              \<longrightarrow> j = snd (snd l))
        \<and> (fst (snd l) = 0 \<and> fst (edges_in ! snd (snd l)) = fst l
             \<or> fst (snd l) = 1 \<and> snd (edges_in ! snd (snd l)) = fst l)"
      by (intro conjI)
  qed
  with fl show ?thesis by blast
qed

lemma limits_ok_tl: "limits_ok edges_in limits \<Longrightarrow> limits_ok edges_in (tl limits)"
  unfolding limits_ok_def by (cases limits) auto

lemma map_nth_upt: "map (\<lambda>j. f (es ! j)) [0..<length es] = map f es"
  by (rule nth_equalityI) simp_all

lemma remaining_all:
  "(map fst edges_in, map snd edges_in, [0..<length edges_in])
     = remaining edges_in [0..<length edges_in]"
  by (simp only: remaining_def map_nth_upt)

lemma limits0_total:
  assumes r: "in_range verts_in edges_in"
  shows "\<exists>limits0. (if limit_mode then find_limits verts_in edges_in else Inr []) = Inr limits0
           \<and> limits_ok edges_in limits0"
proof (cases limit_mode)
  case True
  from find_limits_total [OF r] obtain l where
    l: "find_limits verts_in edges_in = Inr l" "limits_ok edges_in l" by blast
  from True l(1) have "(if limit_mode then find_limits verts_in edges_in else Inr []) = Inr l"
    by simp
  with l(2) show ?thesis by blast
next
  case False
  have lo: "limits_ok edges_in []" by (simp add: limits_ok_def)
  from False have
    "(if limit_mode then find_limits verts_in edges_in else Inr []) = (Inr [] :: error + (nat \<times> nat \<times> nat) list)"
    by simp
  with lo show ?thesis by blast
qed

lemma start_edge:
  assumes lo: "limits_ok edges_in limits0" and ne: "edges_in \<noteq> []"
  shows "(if lg \<and> 0 < length limits0 then snd (snd (hd limits0)) else 0) < length edges_in"
proof (cases "lg \<and> 0 < length limits0")
  case True
  then have "hd limits0 \<in> set limits0" by simp
  with lo have "snd (snd (hd limits0)) < length edges_in" unfolding limits_ok_def by blast
  with True show ?thesis by simp
next
  case False
  then have "(if lg \<and> 0 < length limits0 then snd (snd (hd limits0)) else 0) = 0"
    by (rule if_not_P)
  with ne show ?thesis by simp
qed

lemma initial_edges_inv:
  assumes ed0: "ed0 < length edges_in"
    and ei_def: "ei = take ed0 [0..<length edges_in] @ drop (Suc ed0) [0..<length edges_in]"
  shows "pop_lower_level (map fst edges_in, map snd edges_in, [0..<length edges_in]) ed0
           = Inr (remaining edges_in ei)"
    and "edges_inv edges_in lg
           \<lparr>verts_out = [], edges_out = [], index = [], edges_copy = remaining edges_in ei,
            ed_index = ed0, or_side = side0\<rparr>"
proof -
  let ?E = "length edges_in"
  have k: "ed0 < length [0..<?E]" using ed0 by simp
  show "pop_lower_level (map fst edges_in, map snd edges_in, [0..<?E]) ed0
                = Inr (remaining edges_in ei)"
    unfolding remaining_all ei_def using k by (rule pop_remaining)
  have d0: "distinct [0..<?E]" by simp
  have se: "set ei = set [0..<?E] - {[0..<?E] ! ed0}"
    unfolding ei_def using d0 k by (rule removed_props(2))
  have di: "distinct ei"
    unfolding ei_def using d0 k by (rule removed_props(1))
  have nth0: "[0..<?E] ! ed0 = ed0" using ed0 by simp
  have se': "set ei = {0..<?E} - {ed0}" using se unfolding nth0 by simp
  show "edges_inv edges_in lg
           \<lparr>verts_out = [], edges_out = [], index = [], edges_copy = remaining edges_in ei,
            ed_index = ed0, or_side = side0\<rparr>" (is "edges_inv _ _ ?st0")
  proof (rule edges_invI [where ei = ei])
    show "edges_copy ?st0 = remaining edges_in ei" by simp
    show "distinct ei" by (rule di)
    show "set ei \<subseteq> {..<?E}" unfolding se' by auto
    show "ed_index ?st0 < ?E" using ed0 by simp
    show "ed_index ?st0 \<notin> set ei" unfolding se' by simp
    show "fst (edges_in ! j) \<in> set (index ?st0) \<and> snd (edges_in ! j) \<in> set (index ?st0)"
      if "lg" "j < ?E" "j \<notin> set ei" "j \<noteq> ed_index ?st0" for j
    proof -
      from that(2,3) have "j = ed0" unfolding se' by simp
      with that(4) show ?thesis by simp
    qed
  qed
qed

lemma connexions_returns:
  assumes ne: "edges_in \<noteq> []" and r: "in_range verts_in edges_in"
    and dv: "limit_mode \<longrightarrow> distinct verts_in"
  shows "\<exists>vo eo idx. sort_vertices_by_connexions verts_in edges_in limit_mode = Inr (vo, eo, idx)"
proof -
  let ?E = "length edges_in"
  from limits0_total [OF r] obtain limits0 where
    fl: "(if limit_mode then find_limits verts_in edges_in else Inr []) = Inr limits0"
    and lo: "limits_ok edges_in limits0" by blast
  let ?lg = "limit_mode \<and> 0 < length limits0"
  let ?ed0 = "if ?lg then snd (snd (hd limits0)) else 0"
  let ?side0 = "if ?lg then fst (snd (hd limits0)) else 0"
  let ?limits = "if ?lg then tl limits0 else limits0"
  let ?ei = "take ?ed0 [0..<?E] @ drop (Suc ?ed0) [0..<?E]"
  let ?st0 = "\<lparr>verts_out = [], edges_out = [], index = [],
               edges_copy = remaining edges_in ?ei,
               ed_index = ?ed0, or_side = ?side0\<rparr> :: 'a walk"
  have ed0: "?ed0 < ?E" using lo ne by (rule start_edge)
  note pop0 = initial_edges_inv(1) [OF ed0 refl]
  have e0: "edges_inv edges_in ?lg ?st0" using ed0 refl by (rule initial_edges_inv(2))
  have w0: "walk_inv verts_in (verts_out ?st0) (index ?st0)"
    by (simp add: walk_inv_def)
  have lt: "limits_ok edges_in ?limits"
  proof (cases ?lg)
    case True
    then have "?limits = tl limits0" by (rule if_P)
    with limits_ok_tl [OF lo] show ?thesis by (simp only:)
  next
    case False
    then have "?limits = limits0" by (rule if_not_P)
    with lo show ?thesis by (simp only:)
  qed
  have lim: "?lg \<longrightarrow> distinct verts_in \<and> limits_ok edges_in ?limits"
  proof
    assume ?lg
    then have limit_mode by (rule conjunct1)
    with dv have "distinct verts_in" by (rule mp)
    then show "distinct verts_in \<and> limits_ok edges_in ?limits" using lt by (rule conjI)
  qed
  from walk_loop_total [OF r w0 e0 lim, of ?E] obtain st where
    w: "walk_loop verts_in edges_in ?lg ?limits ?E ?st0 = Inr st" by blast
  have "sort_vertices_by_connexions verts_in edges_in limit_mode =
          (case (if length (verts_out st) \<noteq> length verts_in
                 then add_unconnected (zip verts_in [0..<length verts_in])
                        (verts_out st, index st)
                 else (verts_out st, index st)) of
             (vo, idx) \<Rightarrow> Inr (vo, edges_out st, idx))"
    unfolding sort_vertices_by_connexions_def fl sum.case Let_def pop0 w
    by (rule refl)
  also obtain vo idx where "(if length (verts_out st) \<noteq> length verts_in
                 then add_unconnected (zip verts_in [0..<length verts_in])
                        (verts_out st, index st)
                 else (verts_out st, index st)) = (vo, idx)" by (rule prod.exhaust)
  then have "(case (if length (verts_out st) \<noteq> length verts_in
                 then add_unconnected (zip verts_in [0..<length verts_in])
                        (verts_out st, index st)
                 else (verts_out st, index st)) of
             (vo, idx) \<Rightarrow> Inr (vo, edges_out st, idx)) = (Inr (vo, edges_out st, idx) :: error + 'a list \<times> nat list list \<times> nat list)"
    by (simp only: prod.case)
  finally show ?thesis by blast
qed

section \<open>Restart at a limit\<close>

text \<open>The invariants of the section before hold at every state the loop reaches from the
  start state. With pairwise different coordinates they determine the outcome of a dead
  end: the edge of every limit that is not yet visited is still unconsumed, so that the
  lookup of the restart succeeds.\<close>

lemma connexions_walk_start:
  "sort_vertices_by_connexions verts_in edges_in limit_mode =
     (case walk_start verts_in edges_in limit_mode of Inl err \<Rightarrow> Inl err
      | Inr (limiting, limits, st0) \<Rightarrow>
          (case walk_loop verts_in edges_in limiting limits (length edges_in) st0 of
             Inl err \<Rightarrow> Inl err
           | Inr st \<Rightarrow>
               (case (if length (verts_out st) \<noteq> length verts_in
                      then add_unconnected (zip verts_in [0..<length verts_in])
                             (verts_out st, index st)
                      else (verts_out st, index st)) of
                  (vo, idx) \<Rightarrow> Inr (vo, edges_out st, idx))))"
  unfolding sort_vertices_by_connexions_def walk_start_def Let_def
  by (simp split: sum.splits)

lemma walk_start_Inr_cases:
  assumes "walk_start verts_in edges_in limit_mode = Inr (lg, limits, st0)"
  obtains limits0 ec where
    "(if limit_mode then find_limits verts_in edges_in else Inr []) = Inr limits0"
    "lg = (limit_mode \<and> 0 < length limits0)"
    "limits = (if lg then tl limits0 else limits0)"
    "pop_lower_level (map fst edges_in, map snd edges_in, [0..<length edges_in])
       (if lg then snd (snd (hd limits0)) else 0) = Inr ec"
    "st0 = \<lparr>verts_out = [], edges_out = [], index = [], edges_copy = ec,
            ed_index = (if lg then snd (snd (hd limits0)) else 0),
            or_side = (if lg then fst (snd (hd limits0)) else 0)\<rparr>"
proof -
  let ?fl = "if limit_mode then find_limits verts_in edges_in else Inr []"
  obtain limits0 where l: "?fl = Inr limits0"
  proof (cases ?fl)
    case (Inl e)
    with assms show ?thesis by (simp add: walk_start_def)
  next
    case (Inr x)
    then show ?thesis using that by blast
  qed
  let ?lg = "limit_mode \<and> 0 < length limits0"
  let ?ed0 = "if ?lg then snd (snd (hd limits0)) else 0"
  let ?pl = "pop_lower_level (map fst edges_in, map snd edges_in, [0..<length edges_in]) ?ed0"
  obtain ec where p: "?pl = Inr ec"
  proof (cases ?pl)
    case (Inl e)
    with assms l show ?thesis by (simp add: walk_start_def Let_def)
  next
    case (Inr x)
    then show ?thesis using that by blast
  qed
  let ?limits = "if ?lg then tl limits0 else limits0"
  let ?st0 = "\<lparr>verts_out = [], edges_out = [], index = [], edges_copy = ec,
            ed_index = ?ed0, or_side = (if ?lg then fst (snd (hd limits0)) else 0)\<rparr> :: 'a walk"
  have "walk_start verts_in edges_in limit_mode = Inr (?lg, ?limits, ?st0)"
    unfolding walk_start_def Let_def l sum.case p by (rule refl)
  with assms have "Inr (?lg, ?limits, ?st0) = (Inr (lg, limits, st0) :: error + bool \<times> (nat \<times> nat \<times> nat) list \<times> 'a walk)"
    by (simp only:)
  then have "(?lg, ?limits, ?st0) = (lg, limits, st0)" by (rule sum.inject(2) [THEN iffD1])
  then have e1: "?lg = lg \<and> (?limits, ?st0) = (limits, st0)" by (rule prod.inject [THEN iffD1])
  then have "(?limits, ?st0) = (limits, st0)" by (rule conjunct2)
  then have e2: "?limits = limits \<and> ?st0 = st0" by (rule prod.inject [THEN iffD1])
  from e1 have "?lg = lg" by (rule conjunct1)
  then have a: "lg = ?lg" by (rule sym)
  from e2 have "?limits = limits" by (rule conjunct1)
  then have b: "limits = ?limits" by (rule sym)
  from e2 have "?st0 = st0" by (rule conjunct2)
  then have c: "st0 = ?st0" by (rule sym)
  show ?thesis
  proof (rule that [OF l a])
    show "limits = (if lg then tl limits0 else limits0)" unfolding a by (rule b)
    show "pop_lower_level (map fst edges_in, map snd edges_in, [0..<length edges_in])
       (if lg then snd (snd (hd limits0)) else 0) = Inr ec" unfolding a by (rule p)
    show "st0 = \<lparr>verts_out = [], edges_out = [], index = [], edges_copy = ec,
            ed_index = (if lg then snd (snd (hd limits0)) else 0),
            or_side = (if lg then fst (snd (hd limits0)) else 0)\<rparr>" unfolding a by (rule c)
  qed
qed

lemma walk_start_props:
  assumes r: "in_range verts_in edges_in"
    and s: "walk_start verts_in edges_in limit_mode = Inr (lg, limits, st0)"
    and ne: "lg \<or> edges_in \<noteq> []"
  shows "walk_inv verts_in (verts_out st0) (index st0)"
    and "edges_inv edges_in lg st0"
    and "limits_ok edges_in limits"
    and "sorted_wrt (<) (map fst limits)"
    and "verts_out st0 = []" and "index st0 = []"
proof -
  from s obtain limits0 ec where
    fl: "(if limit_mode then find_limits verts_in edges_in else Inr []) = Inr limits0"
    and lg: "lg = (limit_mode \<and> 0 < length limits0)"
    and li: "limits = (if lg then tl limits0 else limits0)"
    and pl: "pop_lower_level (map fst edges_in, map snd edges_in, [0..<length edges_in])
       (if lg then snd (snd (hd limits0)) else 0) = Inr ec"
    and st0: "st0 = \<lparr>verts_out = [], edges_out = [], index = [], edges_copy = ec,
            ed_index = (if lg then snd (snd (hd limits0)) else 0),
            or_side = (if lg then fst (snd (hd limits0)) else 0)\<rparr>"
    by (rule walk_start_Inr_cases)
  from limits0_total [OF r, of limit_mode] fl have lo0: "limits_ok edges_in limits0" by auto
  have so0: "sorted_wrt (<) (map fst limits0)"
  proof (cases limit_mode)
    case True
    with fl have "find_limits verts_in edges_in = Inr limits0" by simp
    then show ?thesis by (rule find_limits_sorted)
  next
    case False
    with fl have "limits0 = []" by simp
    then show ?thesis by simp
  qed
  show "limits_ok edges_in limits"
    unfolding li using lo0 by (simp add: limits_ok_tl)
  show "sorted_wrt (<) (map fst limits)"
    unfolding li using so0 by (simp add: map_tl sorted_wrt_tl)
  let ?ed0 = "if lg then snd (snd (hd limits0)) else 0"
  have ed0: "?ed0 < length edges_in"
  proof (cases lg)
    case True
    with lg have "hd limits0 \<in> set limits0" by simp
    with lo0 have "snd (snd (hd limits0)) < length edges_in" unfolding limits_ok_def by blast
    with True show ?thesis by simp
  next
    case False
    with ne show ?thesis by simp
  qed
  from initial_edges_inv(1) [OF ed0 refl] pl
  have ec: "ec = remaining edges_in (take ?ed0 [0..<length edges_in] @ drop (Suc ?ed0) [0..<length edges_in])"
    by simp
  show "edges_inv edges_in lg st0"
    unfolding st0 ec using ed0 refl by (rule initial_edges_inv(2))
  show "walk_inv verts_in (verts_out st0) (index st0)" by (simp add: st0 walk_inv_def)
  show "verts_out st0 = []" "index st0 = []" by (simp_all add: st0)
qed

lemma walk_loop_invs:
  assumes r: "in_range verts_in edges_in"
    and lim: "limiting \<longrightarrow> distinct verts_in \<and> limits_ok edges_in limits"
    and w: "walk_loop verts_in edges_in limiting limits n st = Inr st'"
    and wi: "walk_inv verts_in (verts_out st) (index st)"
    and ei: "edges_inv edges_in limiting st"
  shows "walk_inv verts_in (verts_out st') (index st') \<and> edges_inv edges_in limiting st'"
  using w wi ei
proof (induction n arbitrary: st)
  case 0
  then show ?case by simp
next
  case (Suc n)
  from walk_step_total [OF r Suc.prems(2) Suc.prems(3) lim]
  obtain st1 where s: "walk_step verts_in edges_in limiting limits st = Inr st1"
    and e1: "edges_inv edges_in limiting st1" by blast
  from walk_step_inv [OF s Suc.prems(2)] have w1: "walk_inv verts_in (verts_out st1) (index st1)" .
  from Suc.prems(1) s have "walk_loop verts_in edges_in limiting limits n st1 = Inr st'" by simp
  from Suc.IH [OF this w1 e1] show ?case .
qed

lemma filter_Cons_find: "filter P xs = x # ys \<Longrightarrow> find P xs = Some x"
  by (induction xs) (auto split: if_splits)

lemma sorted_filter_head:
  assumes "sorted_wrt (<) (map fst xs)" and "filter P xs = l # ls"
  shows "\<forall>l'\<in>set ls. fst l < (fst l' :: nat)"
proof -
  from assms(1) have "sorted_wrt (\<lambda>a b. fst a < fst b) xs" by (simp only: sorted_wrt_map)
  then have "sorted_wrt (\<lambda>a b. fst a < fst b) (filter P xs)" by (rule sorted_wrt_filter)
  with assms(2) show ?thesis by simp
qed

lemma visit_side_index_set:
  assumes "visit_side verts_in (st, ed) side = Inr (st', ed')"
  shows "set (index st') \<subseteq> insert side (set (index st))"
  using visit_side_Inr(2) [OF assms] visit_side_Inr(3) [OF assms]
  by (cases "verts_in ! side \<in> set (verts_out st)") auto

lemma walk_step_dead_end:
  assumes r: "in_range verts_in edges_in" and dv: "distinct verts_in"
    and wi: "walk_inv verts_in (verts_out st) (index st)"
    and ei: "edges_inv edges_in True st"
    and lo: "limits_ok edges_in limits"
    and so: "sorted_wrt (<) (map fst limits)"
  shows "\<exists>e. oriented_edge edges_in (ed_index st) (or_side st) = Inr e
    \<and> (\<forall>l ls. snd e \<notin> set (fst (edges_copy st)) \<and> snd e \<notin> set (fst (snd (edges_copy st)))
          \<and> fst (edges_copy st) \<noteq> []
          \<and> filter (\<lambda>l. fst l \<notin> set (index st) \<union> {fst e, snd e}) limits = l # ls
        \<longrightarrow> (\<exists>st' p. walk_step verts_in edges_in True limits st = Inr st'
              \<and> ed_index st' = snd (snd l) \<and> or_side st' = fst (snd l)
              \<and> oriented_edge edges_in (ed_index st') (or_side st') = Inr (fst l, p)
              \<and> (\<forall>l'\<in>set ls. fst l < fst l')
              \<and> snd (snd l) \<in> set (snd (snd (edges_copy st)))
              \<and> set (snd (snd (edges_copy st')))
                  = set (snd (snd (edges_copy st))) - {snd (snd l)}
              \<and> set (index st') = set (index st) \<union> {fst e, snd e}))"
proof -
  let ?E = "length edges_in"
  from ei obtain eis where ec: "edges_copy st = remaining edges_in eis"
    and d: "distinct eis" and sub: "set eis \<subseteq> {..<?E}"
    and cur: "ed_index st < ?E" and cn: "ed_index st \<notin> set eis"
    and cl: "\<forall>j<?E. j \<notin> set eis \<and> j \<noteq> ed_index st \<longrightarrow>
               fst (edges_in ! j) \<in> set (index st) \<and> snd (edges_in ! j) \<in> set (index st)"
    unfolding edges_inv_def by blast
  let ?c = "edges_in ! ed_index st"
  define e where "e = (if or_side st = 1 then (snd ?c, fst ?c) else ?c)"
  have o: "oriented_edge edges_in (ed_index st) (or_side st) = Inr e"
    using cur by (simp add: oriented_edge_def nth_err_def e_def)
  from cur have "?c \<in> set edges_in" by simp
  with r have cr: "fst ?c < length verts_in" "snd ?c < length verts_in"
    by (simp_all add: in_range_def)
  then have er: "fst e < length verts_in" "snd e < length verts_in"
    by (simp_all add: e_def)
  have ends: "(fst ?c = fst e \<and> snd ?c = snd e) \<or> (fst ?c = snd e \<and> snd ?c = fst e)"
    by (simp add: e_def)
  from visit_side_total [OF er(1)] obtain st1 ed1 where
    v1: "visit_side verts_in (st, []) (fst e) = Inr (st1, ed1)" by blast
  from visit_side_total [OF er(2)] obtain st2 ed where
    v2: "visit_side verts_in (st1, ed1) (snd e) = Inr (st2, ed)" by blast
  have fr: "edges_copy st2 = edges_copy st" "ed_index st2 = ed_index st"
    using visit_side_frame [OF v1] visit_side_frame [OF v2] by simp_all
  have m1: "set (index st) \<subseteq> set (index st1)" using v1 by (rule visit_side_index_mono)
  have m2: "set (index st1) \<subseteq> set (index st2)" using v2 by (rule visit_side_index_mono)
  have u1: "set (index st1) \<subseteq> insert (fst e) (set (index st))"
    using v1 by (rule visit_side_index_set)
  have u2: "set (index st2) \<subseteq> insert (snd e) (set (index st1))"
    using v2 by (rule visit_side_index_set)
  have wi1: "walk_inv verts_in (verts_out st1) (index st1)" using v1 wi by (rule visit_side_inv)
  have "fst e \<in> set (index st1)" using v1 wi dv by (rule visit_side_records)
  with m2 have a: "fst e \<in> set (index st2)" by blast
  have b: "snd e \<in> set (index st2)" using v2 wi1 dv by (rule visit_side_records)
  have ix: "set (index st2) = set (index st) \<union> {fst e, snd e}"
    using a b m1 m2 u1 u2 by blast
  let ?st3 = "st2\<lparr>edges_out := edges_out st2 @ [ed]\<rparr>"
  have ec3: "edges_copy ?st3 = remaining edges_in eis" using fr ec by simp
  have step: "walk_step verts_in edges_in True limits st =
      (case find_next (snd e) ?st3 of Inl err \<Rightarrow> Inl err
       | Inr st4 \<Rightarrow> restart True limits (ed_index st) st4)"
    by (simp add: walk_step_def o v1 v2)
  have base: "fst (edges_in ! j) \<in> set (index st2) \<and> snd (edges_in ! j) \<in> set (index st2)"
    if "j < ?E" "j \<notin> set eis" for j
  proof (cases "j = ed_index st")
    case True
    from a b ends True show ?thesis by auto
  next
    case False
    with that cl have "fst (edges_in ! j) \<in> set (index st) \<and> snd (edges_in ! j) \<in> set (index st)"
      by blast
    with m1 m2 show ?thesis by blast
  qed
  have main: "\<exists>st' p. walk_step verts_in edges_in True limits st = Inr st'
              \<and> ed_index st' = snd (snd l) \<and> or_side st' = fst (snd l)
              \<and> oriented_edge edges_in (ed_index st') (or_side st') = Inr (fst l, p)
              \<and> (\<forall>l'\<in>set ls. fst l < fst l')
              \<and> snd (snd l) \<in> set (snd (snd (edges_copy st)))
              \<and> set (snd (snd (edges_copy st')))
                  = set (snd (snd (edges_copy st))) - {snd (snd l)}
              \<and> set (index st') = set (index st) \<union> {fst e, snd e}"
    if dead: "snd e \<notin> set (fst (edges_copy st))" "snd e \<notin> set (fst (snd (edges_copy st)))"
      and left: "fst (edges_copy st) \<noteq> []"
      and unv: "filter (\<lambda>l. fst l \<notin> set (index st) \<union> {fst e, snd e}) limits = l # ls"
    for l ls
  proof -
    have none: "find_next (snd e) ?st3 = Inr ?st3"
      using dead fr(1) by (cases "edges_copy st") (simp add: find_next_def)
    have step': "walk_step verts_in edges_in True limits st
                   = restart True limits (ed_index st) ?st3"
      using step none by simp
    from left ec have ne: "eis \<noteq> []" by (simp add: remaining_def)
    from unv ix have "filter (\<lambda>l. fst l \<notin> set (index ?st3)) limits = l # ls" by simp
    then have Some: "find (\<lambda>l. fst l \<notin> set (index ?st3)) limits = Some l"
      by (rule filter_Cons_find)
    then have lin: "l \<in> set limits" and lnv: "fst l \<notin> set (index ?st3)"
      by (auto simp: find_Some_iff)
    let ?k0 = "snd (snd l)"
    from lo lin have k0: "?k0 < ?E"
      and k0e: "fst (edges_in ! ?k0) = fst l \<or> snd (edges_in ! ?k0) = fst l"
      and uniq: "\<forall>j<?E. fst (edges_in ! j) = fst l \<or> snd (edges_in ! j) = fst l \<longrightarrow> j = ?k0"
      and side: "fst (snd l) = 0 \<and> fst (edges_in ! ?k0) = fst l
                 \<or> fst (snd l) = 1 \<and> snd (edges_in ! ?k0) = fst l"
      unfolding limits_ok_def by blast+
    have kin: "?k0 \<in> set eis"
    proof (rule ccontr)
      assume "?k0 \<notin> set eis"
      from base [OF k0 this] k0e lnv show False by auto
    qed
    then obtain k where k: "k < length eis" "eis ! k = ?k0"
      by (auto simp: in_set_conv_nth)
    with k0e have ke: "fst (edges_in ! (eis ! k)) = fst l \<or> snd (edges_in ! (eis ! k)) = fst l"
      by simp
    from restart_limit_remaining [OF ec3 Some k(1) ke _ ne, of "ed_index st"] fr
    obtain k' where k': "k' < length eis"
      "fst (edges_in ! (eis ! k')) = fst l \<or> snd (edges_in ! (eis ! k')) = fst l"
      "restart True limits (ed_index st) ?st3 =
         Inr (?st3\<lparr>ed_index := ?k0, or_side := fst (snd l),
                 edges_copy := remaining edges_in (take k' eis @ drop (Suc k') eis)\<rparr>)"
      by auto
    let ?st' = "?st3\<lparr>ed_index := ?k0, or_side := fst (snd l),
                 edges_copy := remaining edges_in (take k' eis @ drop (Suc k') eis)\<rparr>"
    from k'(1) have "eis ! k' \<in> set eis" by simp
    with sub have "eis ! k' < ?E" by auto
    with uniq k'(2) have kk: "eis ! k' = ?k0" by blast
    have 1: "walk_step verts_in edges_in True limits st = Inr ?st'" using step' k'(3) by simp
    have 2: "ed_index ?st' = ?k0" "or_side ?st' = fst (snd l)" by simp_all
    obtain p where 3: "oriented_edge edges_in (ed_index ?st') (or_side ?st') = Inr (fst l, p)"
    proof (cases "fst (snd l) = 1")
      case True
      with side have "snd (edges_in ! ?k0) = fst l" by simp
      with True k0 have "oriented_edge edges_in (ed_index ?st') (or_side ?st')
          = Inr (fst l, fst (edges_in ! ?k0))"
        by (simp add: oriented_edge_def nth_err_def)
      then show ?thesis by (rule that)
    next
      case False
      with side have "fst (edges_in ! ?k0) = fst l" by auto
      with False k0 have "oriented_edge edges_in (ed_index ?st') (or_side ?st')
          = Inr (fst l, snd (edges_in ! ?k0))"
        by (simp add: oriented_edge_def nth_err_def prod_eq_iff)
      then show ?thesis by (rule that)
    qed
    have 4: "\<forall>l'\<in>set ls. fst l < fst l'" using so unv by (rule sorted_filter_head)
    have 5: "?k0 \<in> set (snd (snd (edges_copy st)))" using kin ec by (simp add: remaining_def)
    have "set (take k' eis @ drop (Suc k') eis) = set eis - {eis ! k'}"
      using d k'(1) by (rule removed_props(2))
    then have 6: "set (snd (snd (edges_copy ?st'))) = set (snd (snd (edges_copy st))) - {?k0}"
      using kk ec by (simp add: remaining_def)
    have 7: "set (index ?st') = set (index st) \<union> {fst e, snd e}" using ix by simp
    from 1 2 3 4 5 6 7 show ?thesis by blast
  qed
  from o main show ?thesis by blast
qed

text \<open>
  Claim C5, as amended. Limit detection is on and in use (\<open>walk_start\<close> returns
  \<open>limiting = True\<close>), the points have pairwise different coordinates and every end of an
  edge is an index of the point list. Then for every \<open>n\<close> the first \<open>n\<close> iterations of the
  walk raise nothing; let \<open>st\<close> be the state they lead to and \<open>e\<close> the current edge in its
  direction (it exists). If no unconsumed edge continues from the point \<open>snd e\<close>, edges are
  still unconsumed, and the limits whose point is not visited (neither in the item-order
  trace nor an end of \<open>e\<close>) are \<open>l # ls\<close> in the order of \<open>find_limits\<close>, then the next
  iteration raises nothing and the traversal resumes from \<open>l\<close>: the next edge is the edge of
  \<open>l\<close>, taken out of the unconsumed edges, its direction is the side of \<open>l\<close>, so that the
  iteration after that starts at the point of \<open>l\<close>, and every other unvisited limit has a
  higher original point index.
\<close>

theorem restart_resumes_lowest_point:
  assumes "in_range verts_in edges_in" and "distinct verts_in"
    and "walk_start verts_in edges_in True = Inr (True, limits, st0)"
  shows "\<exists>st e. walk_loop verts_in edges_in True limits n st0 = Inr st
    \<and> oriented_edge edges_in (ed_index st) (or_side st) = Inr e
    \<and> (\<forall>l ls. snd e \<notin> set (fst (edges_copy st)) \<and> snd e \<notin> set (fst (snd (edges_copy st)))
          \<and> fst (edges_copy st) \<noteq> []
          \<and> filter (\<lambda>l. fst l \<notin> set (index st) \<union> {fst e, snd e}) limits = l # ls
        \<longrightarrow> (\<exists>st' p. walk_step verts_in edges_in True limits st = Inr st'
              \<and> ed_index st' = snd (snd l) \<and> or_side st' = fst (snd l)
              \<and> oriented_edge edges_in (ed_index st') (or_side st') = Inr (fst l, p)
              \<and> (\<forall>l'\<in>set ls. fst l < fst l')
              \<and> snd (snd l) \<in> set (snd (snd (edges_copy st)))
              \<and> set (snd (snd (edges_copy st')))
                  = set (snd (snd (edges_copy st))) - {snd (snd l)}
              \<and> set (index st') = set (index st) \<union> {fst e, snd e}))"
proof -
  have ne: "True \<or> edges_in \<noteq> []" by simp
  note p = walk_start_props [OF assms(1) assms(3) ne]
  have lim: "True \<longrightarrow> distinct verts_in \<and> limits_ok edges_in limits"
    using assms(2) p(3) by simp
  from walk_loop_total [OF assms(1) p(1) p(2) lim, of n] obtain st where
    w: "walk_loop verts_in edges_in True limits n st0 = Inr st" by blast
  from walk_loop_invs [OF assms(1) lim w p(1) p(2)]
  have wi: "walk_inv verts_in (verts_out st) (index st)" and ei: "edges_inv edges_in True st"
    by simp_all
  from assms(1) assms(2) wi ei p(3) p(4) have
    "\<exists>e. oriented_edge edges_in (ed_index st) (or_side st) = Inr e
    \<and> (\<forall>l ls. snd e \<notin> set (fst (edges_copy st)) \<and> snd e \<notin> set (fst (snd (edges_copy st)))
          \<and> fst (edges_copy st) \<noteq> []
          \<and> filter (\<lambda>l. fst l \<notin> set (index st) \<union> {fst e, snd e}) limits = l # ls
        \<longrightarrow> (\<exists>st' p. walk_step verts_in edges_in True limits st = Inr st'
              \<and> ed_index st' = snd (snd l) \<and> or_side st' = fst (snd l)
              \<and> oriented_edge edges_in (ed_index st') (or_side st') = Inr (fst l, p)
              \<and> (\<forall>l'\<in>set ls. fst l < fst l')
              \<and> snd (snd l) \<in> set (snd (snd (edges_copy st)))
              \<and> set (snd (snd (edges_copy st')))
                  = set (snd (snd (edges_copy st))) - {snd (snd l)}
              \<and> set (index st') = set (index st) \<union> {fst e, snd e}))"
    by (rule walk_step_dead_end)
  then obtain e where e: "oriented_edge edges_in (ed_index st) (or_side st) = Inr e
    \<and> (\<forall>l ls. snd e \<notin> set (fst (edges_copy st)) \<and> snd e \<notin> set (fst (snd (edges_copy st)))
          \<and> fst (edges_copy st) \<noteq> []
          \<and> filter (\<lambda>l. fst l \<notin> set (index st) \<union> {fst e, snd e}) limits = l # ls
        \<longrightarrow> (\<exists>st' p. walk_step verts_in edges_in True limits st = Inr st'
              \<and> ed_index st' = snd (snd l) \<and> or_side st' = fst (snd l)
              \<and> oriented_edge edges_in (ed_index st') (or_side st') = Inr (fst l, p)
              \<and> (\<forall>l'\<in>set ls. fst l < fst l')
              \<and> snd (snd l) \<in> set (snd (snd (edges_copy st)))
              \<and> set (snd (snd (edges_copy st')))
                  = set (snd (snd (edges_copy st))) - {snd (snd l)}
              \<and> set (index st') = set (index st) \<union> {fst e, snd e}))" ..
  with w have "walk_loop verts_in edges_in True limits n st0 = Inr st
    \<and> oriented_edge edges_in (ed_index st) (or_side st) = Inr e
    \<and> (\<forall>l ls. snd e \<notin> set (fst (edges_copy st)) \<and> snd e \<notin> set (fst (snd (edges_copy st)))
          \<and> fst (edges_copy st) \<noteq> []
          \<and> filter (\<lambda>l. fst l \<notin> set (index st) \<union> {fst e, snd e}) limits = l # ls
        \<longrightarrow> (\<exists>st' p. walk_step verts_in edges_in True limits st = Inr st'
              \<and> ed_index st' = snd (snd l) \<and> or_side st' = fst (snd l)
              \<and> oriented_edge edges_in (ed_index st') (or_side st') = Inr (fst l, p)
              \<and> (\<forall>l'\<in>set ls. fst l < fst l')
              \<and> snd (snd l) \<in> set (snd (snd (edges_copy st)))
              \<and> set (snd (snd (edges_copy st')))
                  = set (snd (snd (edges_copy st))) - {snd (snd l)}
              \<and> set (index st') = set (index st) \<union> {fst e, snd e}))"
    by (rule conjI)
  then show ?thesis by - (rule exI, rule exI, assumption)
qed

theorem restart_resumes_lowest_point_witness:
  "in_range [10, 11, 12, 13, 14, 15 :: nat] [(0, 1), (4, 5), (2, 3)]
   \<and> distinct [10, 11, 12, 13, 14, 15 :: nat]
   \<and> walk_start [10, 11, 12, 13, 14, 15 :: nat] [(0, 1), (4, 5), (2, 3)] True
       = Inr (True, [(1, 1, 0), (2, 0, 2), (3, 1, 2), (4, 0, 1), (5, 1, 1)],
              \<lparr>verts_out = [], edges_out = [], index = [],
               edges_copy = ([4, 2], [5, 3], [1, 2]), ed_index = 0, or_side = 0\<rparr>)
   \<and> oriented_edge [(0, 1), (4, 5), (2, 3)] 0 0 = Inr (0, 1)
   \<and> filter (\<lambda>l. fst l \<notin> set [] \<union> {0, 1})
        [(1, 1, 0), (2, 0, 2), (3, 1, 2), (4, 0, 1), (5, 1, 1 :: nat)]
       = (2 :: nat, 0 :: nat, 2) # [(3, 1, 2), (4, 0, 1), (5, 1, 1)]
   \<and> (\<exists>st' p. walk_step [10, 11, 12, 13, 14, 15 :: nat] [(0, 1), (4, 5), (2, 3)] True
          [(1, 1, 0), (2, 0, 2), (3, 1, 2), (4, 0, 1), (5, 1, 1)]
          \<lparr>verts_out = [], edges_out = [], index = [],
           edges_copy = ([4, 2], [5, 3], [1, 2]), ed_index = 0, or_side = 0\<rparr> = Inr st'
        \<and> ed_index st' = 2 \<and> or_side st' = 0
        \<and> oriented_edge [(0, 1), (4, 5), (2, 3)] (ed_index st') (or_side st') = Inr (2, p)
        \<and> set (snd (snd (edges_copy st'))) = {1}
        \<and> set (index st') = {0, 1})"
proof -
  let ?v = "[10, 11, 12, 13, 14, 15 :: nat]"
  let ?e = "[(0, 1), (4, 5), (2, 3)] :: (nat \<times> nat) list"
  let ?limits = "[(1, 1, 0), (2, 0, 2), (3, 1, 2), (4, 0, 1), (5, 1, 1)] :: (nat \<times> nat \<times> nat) list"
  let ?st0 = "\<lparr>verts_out = [], edges_out = [], index = [],
               edges_copy = ([4, 2], [5, 3], [1, 2]), ed_index = 0, or_side = 0\<rparr> :: nat walk"
  have a: "in_range ?v ?e" by (simp add: in_range_def)
  have b: "distinct ?v" by simp
  have c: "walk_start ?v ?e True = Inr (True, ?limits, ?st0)" by code_simp
  have o: "oriented_edge ?e 0 0 = Inr (0, 1)" by (simp add: oriented_edge_def nth_err_def)
  have f: "filter (\<lambda>l. fst l \<notin> set [] \<union> {0, 1}) ?limits
       = (2 :: nat, 0 :: nat, 2) # [(3, 1, 2), (4, 0, 1), (5, 1, 1)]" by simp
  have o': "oriented_edge ?e (ed_index ?st0) (or_side ?st0) = Inr (0, 1)"
    using o by simp
  have pre: "snd (0 :: nat, 1 :: nat) \<notin> set (fst (edges_copy ?st0))
          \<and> snd (0 :: nat, 1 :: nat) \<notin> set (fst (snd (edges_copy ?st0)))
          \<and> fst (edges_copy ?st0) \<noteq> []
          \<and> filter (\<lambda>l. fst l \<notin> set (index ?st0) \<union> {fst (0 :: nat, 1 :: nat), snd (0 :: nat, 1 :: nat)}) ?limits
              = (2, 0, 2) # [(3, 1, 2), (4, 0, 1), (5, 1, 1)]"
    by simp
  from restart_resumes_lowest_point [OF a b c, of 0] obtain st e where
    w: "walk_loop ?v ?e True ?limits 0 ?st0 = Inr st"
    and e0: "oriented_edge ?e (ed_index st) (or_side st) = Inr e"
    and imp0: "\<forall>l ls. snd e \<notin> set (fst (edges_copy st))
          \<and> snd e \<notin> set (fst (snd (edges_copy st)))
          \<and> fst (edges_copy st) \<noteq> []
          \<and> filter (\<lambda>l. fst l \<notin> set (index st) \<union> {fst e, snd e}) ?limits = l # ls
        \<longrightarrow> (\<exists>st' p. walk_step ?v ?e True ?limits st = Inr st'
              \<and> ed_index st' = snd (snd l) \<and> or_side st' = fst (snd l)
              \<and> oriented_edge ?e (ed_index st') (or_side st') = Inr (fst l, p)
              \<and> (\<forall>l'\<in>set ls. fst l < fst l')
              \<and> snd (snd l) \<in> set (snd (snd (edges_copy st)))
              \<and> set (snd (snd (edges_copy st')))
                  = set (snd (snd (edges_copy st))) - {snd (snd l)}
              \<and> set (index st') = set (index st) \<union> {fst e, snd e})"
    by (elim exE conjE)
  from w have st: "st = ?st0" by simp
  note e = e0 [unfolded st] and imp = imp0 [unfolded st]
  from e o' have e01: "e = (0, 1)" by (simp only: sum.inject)
  from imp [unfolded e01, rule_format, OF pre] obtain st' p where
    r: "walk_step ?v ?e True ?limits ?st0 = Inr st'"
      "ed_index st' = snd (snd (2 :: nat, 0 :: nat, 2 :: nat))"
      "or_side st' = fst (snd (2 :: nat, 0 :: nat, 2 :: nat))"
      "oriented_edge ?e (ed_index st') (or_side st') = Inr (fst (2 :: nat, 0 :: nat, 2 :: nat), p)"
      "set (snd (snd (edges_copy st')))
          = set (snd (snd (edges_copy ?st0))) - {snd (snd (2 :: nat, 0 :: nat, 2 :: nat))}"
      "set (index st') = set (index ?st0) \<union> {fst (0 :: nat, 1 :: nat), snd (0 :: nat, 1 :: nat)}"
    by (elim exE conjE)
  from r(2) have r2: "ed_index st' = 2" by simp
  from r(3) have r3: "or_side st' = 0" by simp
  from r(4) have r4: "oriented_edge ?e (ed_index st') (or_side st') = Inr (2, p)" by simp
  have "set (snd (snd (edges_copy ?st0))) - {snd (snd (2 :: nat, 0 :: nat, 2 :: nat))} = {1}"
    by (simp add: insert_Diff_if)
  with r(5) have r5: "set (snd (snd (edges_copy st'))) = {1}" by (simp only:)
  from r(6) have r6: "set (index st') = {0, 1}" by simp
  from r(1) r2 r3 r4 r5 r6 have "\<exists>st' p. walk_step ?v ?e True ?limits ?st0 = Inr st'
        \<and> ed_index st' = 2 \<and> or_side st' = 0
        \<and> oriented_edge ?e (ed_index st') (or_side st') = Inr (2, p)
        \<and> set (snd (snd (edges_copy st'))) = {1}
        \<and> set (index st') = {0, 1}" by (intro exI conjI)
  with a b c o f show ?thesis by (intro conjI)
qed

text \<open>The claim as stated fails: for six different points and the edges (0,1), (4,5),
  (2,3), the walk starts at limit 0 and dead-ends after the edge (0,1). The unvisited
  limits are the points 2 and 3 (edge index 2) and 4 and 5 (edge index 1); the walk resumes
  with the edge of index 2, at the point 2, not with the lowest edge index 1, and the
  points 2 and 3 come before 4 and 5 in the item order.\<close>

theorem restart_lowest_edge_counterexample:
  "find_limits [10, 11, 12, 13, 14, 15 :: nat] [(0, 1), (4, 5), (2, 3)]
     = Inr [(0, 0, 0), (1, 1, 0), (2, 0, 2), (3, 1, 2), (4, 0, 1), (5, 1, 1)]
   \<and> walk_step [10, 11, 12, 13, 14, 15 :: nat] [(0, 1), (4, 5), (2, 3)] True
        [(1, 1, 0), (2, 0, 2), (3, 1, 2), (4, 0, 1), (5, 1, 1)]
        \<lparr>verts_out = [], edges_out = [], index = [],
         edges_copy = ([4, 2], [5, 3], [1, 2]), ed_index = 0, or_side = 0\<rparr>
     = Inr \<lparr>verts_out = [10, 11], edges_out = [[0, 1]], index = [0, 1],
            edges_copy = ([4], [5], [1]), ed_index = 2, or_side = 0\<rparr>
   \<and> sort_vertices_by_connexions [10, 11, 12, 13, 14, 15 :: nat] [(0, 1), (4, 5), (2, 3)] True
     = Inr ([10, 11, 12, 13, 14, 15], [[0, 1], [2, 3], [4, 5]], [0, 1, 2, 3, 4, 5])"
  by code_simp

section \<open>The item-order trace of the walk\<close>

text \<open>Each step of the walk appends to the trace the ends of the current edge whose
  coordinates are new, and the final pass does the same with all indices in ascending
  order; \<open>keep_new\<close> expresses both.\<close>

lemma keep_new_append:
  "keep_new verts_in seen (xs @ ys) =
     keep_new verts_in seen xs
       @ keep_new verts_in (seen @ map (\<lambda>i. verts_in ! i) (keep_new verts_in seen xs)) ys"
  by (induction xs arbitrary: seen) simp_all

lemma keep_new_all_seen:
  "\<forall>i\<in>set xs. verts_in ! i \<in> set seen \<Longrightarrow> keep_new verts_in seen xs = []"
  by (induction xs) simp_all

lemma visit_side_keep_new:
  assumes "visit_side verts_in (st, ed) side = Inr (st', ed')"
  shows "index st' = index st @ keep_new verts_in (verts_out st) [side]"
    and "verts_out st' = verts_out st
           @ map (\<lambda>i. verts_in ! i) (keep_new verts_in (verts_out st) [side])"
  using visit_side_Inr(2) [OF assms] visit_side_Inr(3) [OF assms]
  by (cases "verts_in ! side \<in> set (verts_out st)"; simp)+

lemma walk_step_keep_new:
  assumes s: "walk_step verts_in edges_in limiting limits st = Inr st'"
    and o: "oriented_edge edges_in (ed_index st) (or_side st) = Inr e"
  shows "index st' = index st @ keep_new verts_in (verts_out st) [fst e, snd e]"
    and "verts_out st' = verts_out st
           @ map (\<lambda>i. verts_in ! i) (keep_new verts_in (verts_out st) [fst e, snd e])"
proof -
  from s o obtain st1 ed1 st2 ed st4 where
    v1: "visit_side verts_in (st, []) (fst e) = Inr (st1, ed1)" and
    v2: "visit_side verts_in (st1, ed1) (snd e) = Inr (st2, ed)" and
    f: "find_next (snd e) (st2\<lparr>edges_out := edges_out st2 @ [ed]\<rparr>) = Inr st4" and
    r: "restart limiting limits (ed_index st) st4 = Inr st'"
    by (auto simp: walk_step_def split: sum.splits prod.splits)
  have a: "index st' = index st2" "verts_out st' = verts_out st2"
    using find_next_frame [OF f] restart_frame [OF r] by simp_all
  have k: "keep_new verts_in (verts_out st) ([fst e] @ [snd e])
      = keep_new verts_in (verts_out st) [fst e]
        @ keep_new verts_in (verts_out st @ map (\<lambda>i. verts_in ! i)
            (keep_new verts_in (verts_out st) [fst e])) [snd e]"
    by (rule keep_new_append)
  have i2: "index st2 = index st @ keep_new verts_in (verts_out st) ([fst e] @ [snd e])"
    unfolding k visit_side_keep_new(1) [OF v2] visit_side_keep_new(1) [OF v1]
      visit_side_keep_new(2) [OF v1] by simp
  have v2': "verts_out st2 = verts_out st
      @ map (\<lambda>i. verts_in ! i) (keep_new verts_in (verts_out st) ([fst e] @ [snd e]))"
    unfolding k visit_side_keep_new(2) [OF v2] visit_side_keep_new(2) [OF v1] by simp
  from a i2 show "index st' = index st @ keep_new verts_in (verts_out st) [fst e, snd e]"
    by simp
  from a v2' show "verts_out st' = verts_out st
           @ map (\<lambda>i. verts_in ! i) (keep_new verts_in (verts_out st) [fst e, snd e])"
    by simp
qed

lemma walk_step_oriented:
  assumes "walk_step verts_in edges_in limiting limits st = Inr st'"
  shows "\<exists>e. oriented_edge edges_in (ed_index st) (or_side st) = Inr e"
  using assms by (auto simp: walk_step_def split: sum.splits)

lemma walk_loop_keep_new:
  assumes "walk_loop verts_in edges_in limiting limits n st = Inr st'"
  shows "index st' = index st
           @ keep_new verts_in (verts_out st) (walk_sides verts_in edges_in limiting limits n st)
       \<and> verts_out st' = verts_out st
           @ map (\<lambda>i. verts_in ! i)
               (keep_new verts_in (verts_out st) (walk_sides verts_in edges_in limiting limits n st))"
  using assms
proof (induction n arbitrary: st)
  case 0
  then show ?case by simp
next
  case (Suc n)
  from Suc.prems obtain st1 where
    s: "walk_step verts_in edges_in limiting limits st = Inr st1"
    and l: "walk_loop verts_in edges_in limiting limits n st1 = Inr st'"
    by (auto split: sum.splits)
  from walk_step_oriented [OF s] obtain e where
    o: "oriented_edge edges_in (ed_index st) (or_side st) = Inr e" by blast
  let ?k = "keep_new verts_in (verts_out st) [fst e, snd e]"
  let ?rest = "walk_sides verts_in edges_in limiting limits n st1"
  have ws: "walk_sides verts_in edges_in limiting limits (Suc n) st = [fst e, snd e] @ ?rest"
    using s o by simp
  have i1: "index st1 = index st @ ?k" using s o by (rule walk_step_keep_new(1))
  have v1: "verts_out st1 = verts_out st @ map (\<lambda>i. verts_in ! i) ?k"
    using s o by (rule walk_step_keep_new(2))
  from Suc.IH [OF l] have
    i': "index st' = index st1 @ keep_new verts_in (verts_out st1) ?rest" and
    v': "verts_out st' = verts_out st1
           @ map (\<lambda>i. verts_in ! i) (keep_new verts_in (verts_out st1) ?rest)"
    by simp_all
  have k: "keep_new verts_in (verts_out st) ([fst e, snd e] @ ?rest)
      = ?k @ keep_new verts_in (verts_out st1) ?rest"
    unfolding v1 by (rule keep_new_append)
  show ?case unfolding ws k i' v' i1 v1 by simp
qed

lemma zip_upt_map: "zip xs [0..<length xs] = map (\<lambda>i. (xs ! i, i)) [0..<length xs]"
  by (rule nth_equalityI) simp_all

lemma add_unconnected_keep_new:
  "add_unconnected (map (\<lambda>i. (verts_in ! i, i)) xs) (vo, ix)
     = (vo @ map (\<lambda>i. verts_in ! i) (keep_new verts_in vo xs), ix @ keep_new verts_in vo xs)"
  by (induction xs arbitrary: vo ix) simp_all

lemma connexions_trace:
  assumes r: "sort_vertices_by_connexions verts_in edges_in limit_mode = Inr (vo, eo, idx)"
  shows "idx = keep_new verts_in []
                 (visit_sequence verts_in edges_in limit_mode @ [0..<length verts_in])"
proof -
  obtain lg limits st0 where ws: "walk_start verts_in edges_in limit_mode = Inr (lg, limits, st0)"
  proof (cases "walk_start verts_in edges_in limit_mode")
    case (Inl e)
    with r show ?thesis by (simp add: connexions_walk_start)
  next
    case (Inr x)
    then show ?thesis using that by (cases x) auto
  qed
  obtain st where wl: "walk_loop verts_in edges_in lg limits (length edges_in) st0 = Inr st"
  proof (cases "walk_loop verts_in edges_in lg limits (length edges_in) st0")
    case (Inl e)
    with r ws show ?thesis by (simp add: connexions_walk_start)
  next
    case (Inr x)
    then show ?thesis using that by blast
  qed
  from r ws wl have res: "(vo, idx) = (if length (verts_out st) \<noteq> length verts_in
                  then add_unconnected (zip verts_in [0..<length verts_in]) (verts_out st, index st)
                  else (verts_out st, index st))"
    by (auto simp: connexions_walk_start split: prod.splits if_splits)
  from ws obtain ec e0 s0 where "st0 = \<lparr>verts_out = [], edges_out = [], index = [],
      edges_copy = ec, ed_index = e0, or_side = s0\<rparr>"
    by (rule walk_start_Inr_cases)
  then have st0: "verts_out st0 = []" "index st0 = []" by simp_all
  let ?vs = "visit_sequence verts_in edges_in limit_mode"
  have vs: "?vs = walk_sides verts_in edges_in lg limits (length edges_in) st0"
    by (simp add: visit_sequence_def ws)
  from walk_loop_keep_new [OF wl] st0 vs have
    ix: "index st = keep_new verts_in [] ?vs" and
    vx: "verts_out st = map (\<lambda>i. verts_in ! i) (keep_new verts_in [] ?vs)"
    by simp_all
  have k: "keep_new verts_in [] (?vs @ [0..<length verts_in])
      = index st @ keep_new verts_in (verts_out st) [0..<length verts_in]"
    unfolding ix vx using keep_new_append [of verts_in "[]" ?vs "[0..<length verts_in]"] by simp
  show ?thesis
  proof (cases "length (verts_out st) \<noteq> length verts_in")
    case True
    with res have "(vo, idx) = add_unconnected (map (\<lambda>i. (verts_in ! i, i)) [0..<length verts_in])
        (verts_out st, index st)"
      by (simp add: zip_upt_map)
    then have "idx = index st @ keep_new verts_in (verts_out st) [0..<length verts_in]"
      by (simp only: add_unconnected_keep_new prod.inject)
    with k show ?thesis by simp
  next
    case False
    with res have e: "vo = verts_out st" "idx = index st" by simp_all
    from sort_vertices_complete [OF r] e(1) have "set (verts_out st) = set verts_in" by simp
    then have "\<forall>i\<in>set [0..<length verts_in]. verts_in ! i \<in> set (verts_out st)" by simp
    then have "keep_new verts_in (verts_out st) [0..<length verts_in] = []"
      by (rule keep_new_all_seen)
    with k e(2) show ?thesis by simp
  qed
qed

text \<open>
  Claim C10, as amended. The walk deduplicates visited vertices by coordinate value, not by
  original index. With limit detection off it returns for every point list and every
  non-empty edge list whose ends are indices of the point list. Whenever it returns, with
  limit detection on or off, the output vertex list holds every coordinate value at most
  once and is the list of the coordinates of the item-order trace, so of two different
  indices with the same coordinates at most one is in the trace, and a point list with a
  repeated coordinate gives a trace shorter than the point list. The trace is the sequence
  of the edge ends in the order the walk visits them, followed by all indices in ascending
  order, from which every index is dropped whose coordinates occurred earlier in the
  sequence: the index recorded for a coordinate is the first one reached, which need not be
  the lowest one.
\<close>

theorem connexions_dedup_by_coordinate:
  "(edges_in \<noteq> [] \<and> in_range verts_in edges_in
      \<longrightarrow> (\<exists>vo eo idx. sort_vertices_by_connexions verts_in edges_in False = Inr (vo, eo, idx)))
   \<and> (sort_vertices_by_connexions verts_in edges_in limit_mode = Inr (vo, eo, idx)
      \<longrightarrow> distinct vo \<and> vo = map (\<lambda>i. verts_in ! i) idx
        \<and> (\<forall>i j. i \<noteq> j \<and> verts_in ! i = verts_in ! j \<longrightarrow> \<not> (i \<in> set idx \<and> j \<in> set idx))
        \<and> (\<not> distinct verts_in \<longrightarrow> length idx < length verts_in)
        \<and> idx = keep_new verts_in []
                  (visit_sequence verts_in edges_in limit_mode @ [0..<length verts_in]))"
proof (intro conjI impI)
  assume "edges_in \<noteq> [] \<and> in_range verts_in edges_in"
  then have ne: "edges_in \<noteq> []" and r: "in_range verts_in edges_in" by simp_all
  have "False \<longrightarrow> distinct verts_in" by simp
  with ne r show "\<exists>vo eo idx. sort_vertices_by_connexions verts_in edges_in False = Inr (vo, eo, idx)"
    by (rule connexions_returns)
next
  assume r: "sort_vertices_by_connexions verts_in edges_in limit_mode = Inr (vo, eo, idx)"
  have inv: "walk_inv verts_in vo idx" using r by (rule sort_vertices_inv)
  then show a: "distinct vo" and b: "vo = map (\<lambda>i. verts_in ! i) idx"
    by (simp_all add: walk_inv_def)
  from a b have "distinct (map (\<lambda>i. verts_in ! i) idx)" by simp
  then have "inj_on (\<lambda>i. verts_in ! i) (set idx)" by (simp add: distinct_map)
  then show "\<forall>i j. i \<noteq> j \<and> verts_in ! i = verts_in ! j \<longrightarrow> \<not> (i \<in> set idx \<and> j \<in> set idx)"
    by (auto dest: inj_onD)
  show "length idx < length verts_in" if "\<not> distinct verts_in"
    using inv that by (auto dest: not_distinct_shorter)
  show "idx = keep_new verts_in []
                  (visit_sequence verts_in edges_in limit_mode @ [0..<length verts_in])"
    using r by (rule connexions_trace)
qed

theorem connexions_dedup_by_coordinate_witness:
  "[(0, 1), (1, 2), (2, 3)] \<noteq> ([] :: (nat \<times> nat) list)
   \<and> in_range [(0, 0, 0), (1, 0, 0), (1, 0, 0), (2, 0, 0) :: vert] [(0, 1), (1, 2), (2, 3)]
   \<and> sort_vertices_by_connexions [(0, 0, 0), (1, 0, 0), (1, 0, 0), (2, 0, 0) :: vert]
         [(0, 1), (1, 2), (2, 3)] True
       = Inr ([(0, 0, 0), (1, 0, 0), (2, 0, 0)], [[0, 1], [1, 1], [1, 2]], [0, 1, 3])
   \<and> (\<exists>vo eo idx. sort_vertices_by_connexions [(0, 0, 0), (1, 0, 0), (1, 0, 0), (2, 0, 0) :: vert]
         [(0, 1), (1, 2), (2, 3)] False = Inr (vo, eo, idx))
   \<and> distinct [(0, 0, 0), (1, 0, 0), (2, 0, 0) :: vert]
   \<and> length [0, 1, 3 :: nat] < length [(0, 0, 0), (1, 0, 0), (1, 0, 0), (2, 0, 0) :: vert]
   \<and> visit_sequence [(0, 0, 0), (1, 0, 0), (1, 0, 0), (2, 0, 0) :: vert]
         [(0, 1), (1, 2), (2, 3)] True = [0, 1, 1, 2, 2, 3]
   \<and> [0, 1, 3] = keep_new [(0, 0, 0), (1, 0, 0), (1, 0, 0), (2, 0, 0) :: vert] []
         ([0, 1, 1, 2, 2, 3] @ [0..<4])"
proof -
  let ?v = "[(0, 0, 0), (1, 0, 0), (1, 0, 0), (2, 0, 0) :: vert]"
  let ?e = "[(0, 1), (1, 2), (2, 3)] :: (nat \<times> nat) list"
  have ne: "?e \<noteq> []" by simp
  have ir: "in_range ?v ?e" by (simp add: in_range_def)
  have r: "sort_vertices_by_connexions ?v ?e True
       = Inr ([(0, 0, 0), (1, 0, 0), (2, 0, 0)], [[0, 1], [1, 1], [1, 2]], [0, 1, 3])"
    by (simp add: sort_vertices_by_connexions_def find_limits_def count_end_def
      pop_lower_level_def pop_def walk_step_def oriented_edge_def nth_err_def visit_side_def
      find_next_def take_edge_def restart_def Let_def upt_rec numeral_3_eq_3 numeral_2_eq_2)
  have vs: "visit_sequence ?v ?e True = [0, 1, 1, 2, 2, 3]"
    by (simp add: visit_sequence_def walk_start_def find_limits_def count_end_def
      pop_lower_level_def pop_def walk_step_def oriented_edge_def nth_err_def visit_side_def
      find_next_def take_edge_def restart_def Let_def upt_rec numeral_3_eq_3 numeral_2_eq_2)
  note t = connexions_dedup_by_coordinate [of ?e ?v True
      "[(0, 0, 0), (1, 0, 0), (2, 0, 0)]" "[[0, 1], [1, 1], [1, 2]]" "[0, 1, 3]"]
  from t ne ir have ex: "\<exists>vo eo idx. sort_vertices_by_connexions ?v ?e False = Inr (vo, eo, idx)"
    by blast
  from t r have d: "distinct [(0, 0, 0), (1, 0, 0), (2, 0, 0) :: vert]"
    and k: "[0, 1, 3] = keep_new ?v [] (visit_sequence ?v ?e True @ [0..<length ?v])"
    by blast+
  have nd: "\<not> distinct ?v" by simp
  from t r nd have l: "length [0, 1, 3 :: nat] < length ?v" by blast
  have lv: "length ?v = 4" by simp
  from k have k': "[0, 1, 3] = keep_new ?v [] ([0, 1, 1, 2, 2, 3] @ [0..<4])"
    unfolding vs lv .
  from ne ir r ex d l vs k' show ?thesis by (intro conjI)
qed

text \<open>The claim as stated fails in two ways. For the points a, b, a and the edges (2,1),
  (1,0) without limit detection the trace is 2, 1: the index recorded for the coordinates
  of the points 0 and 2 is 2, not the first occurrence 0. And with limit detection on, the
  six points a, b, a, c, d, e with the edges (0,1), (2,3), (4,5) give no output at all: at
  the second dead end the limit at point 2, which never enters the trace because it has the
  coordinates of point 0, is chosen again, its edge is no longer among the unconsumed
  edges, and the lookup raises \<open>ValueError\<close>.\<close>

theorem first_occurrence_not_recorded_counterexample:
  "sort_vertices_by_connexions [(0, 0, 0), (1, 0, 0), (0, 0, 0) :: vert] [(2, 1), (1, 0)] False
     = Inr ([(0, 0, 0), (1, 0, 0)], [[0, 1], [1, 0]], [2, 1])
   \<and> [(0, 0, 0), (1, 0, 0), (0, 0, 0) :: vert] ! 0 = [(0, 0, 0), (1, 0, 0), (0, 0, 0)] ! 2
   \<and> 0 \<notin> set [2, 1 :: nat]
   \<and> sort_vertices_by_connexions
        [(0, 0, 0), (1, 0, 0), (0, 0, 0), (3, 0, 0), (4, 0, 0), (5, 0, 0) :: vert]
        [(0, 1), (2, 3), (4, 5)] True
     = Inl ValueError"
proof -
  have a: "sort_vertices_by_connexions [(0, 0, 0), (1, 0, 0), (0, 0, 0) :: vert] [(2, 1), (1, 0)] False
     = Inr ([(0, 0, 0), (1, 0, 0)], [[0, 1], [1, 0]], [2, 1])"
    by (simp add: sort_vertices_by_connexions_def pop_lower_level_def pop_def walk_step_def
        oriented_edge_def nth_err_def visit_side_def find_next_def take_edge_def restart_def
        Let_def upt_rec numeral_2_eq_2)
  have b: "[(0, 0, 0), (1, 0, 0), (0, 0, 0) :: vert] ! 0 = [(0, 0, 0), (1, 0, 0), (0, 0, 0)] ! 2"
    by simp
  have c: "0 \<notin> set [2, 1 :: nat]" by simp
  have d: "sort_vertices_by_connexions
        [(0, 0, 0), (1, 0, 0), (0, 0, 0), (3, 0, 0), (4, 0, 0), (5, 0, 0) :: vert]
        [(0, 1), (2, 3), (4, 5)] True
     = Inl ValueError"
    by (simp add: sort_vertices_by_connexions_def find_limits_def count_end_def
      pop_lower_level_def pop_def walk_step_def oriented_edge_def nth_err_def visit_side_def
      find_next_def take_edge_def restart_def Let_def upt_rec numeral_3_eq_3 numeral_2_eq_2)
  from a b c d show ?thesis by (intro conjI)
qed

end
